theory Spec2Isabelle
  imports Complex_Main
begin

section \<open>Configuration\<close>

text \<open>
  Every variant of the sweeper bot in \<^verbatim>\<open>src/unnamed/part_000\<close> reads its tunables from a
  module-level \<^verbatim>\<open>config\<close> object. The fee and retry fields are common to all variants;
  the time-bound fields exist only in the "Optimized & Aggressive" variant.
  JavaScript numbers are modelled by the integers or reals they denote; the values that
  occur here (fees in stroops, epoch seconds, milliseconds) are far below \<open>2^53\<close>.
\<close>

record fee_config =
  baseFee :: int
  maxFee :: int
  feePriorityMultiplier :: real
  maxSubmissionAttempts :: nat

record config = fee_config +
  timeboundGrace :: int
  earlySubmitOffset :: int

text \<open>The constants of the "Optimized & Aggressive" variant (lines 59--72).\<close>

definition config_aggressive :: config where
  "config_aggressive =
     \<lparr>baseFee = 100000, maxFee = 500000, feePriorityMultiplier = 10,
      maxSubmissionAttempts = 3, timeboundGrace = 60, earlySubmitOffset = 1\<rparr>"

text \<open>The constants of the "Claim All & Continuous Flood" variant (lines 279--289).\<close>

definition config_flood :: fee_config where
  "config_flood =
     \<lparr>baseFee = 100000, maxFee = 1000000, feePriorityMultiplier = 2,
      maxSubmissionAttempts = 5\<rparr>"

text \<open>The constants of the "High-Performance" variant (lines 428--460).\<close>

definition config_performance :: fee_config where
  "config_performance =
     \<lparr>baseFee = 100000, maxFee = 1000000, feePriorityMultiplier = 3 / 2,
      maxSubmissionAttempts = 3\<rparr>"


section \<open>BalanceWatcher: claim predicates\<close>

text \<open>
  A claim predicate is the JSON object the ledger returns. The code never looks at a
  tag; it tests the fields \<^verbatim>\<open>abs_after\<close>, \<^verbatim>\<open>abs_before\<close>, \<^verbatim>\<open>abs_before_epoch\<close>, \<^verbatim>\<open>not\<close>,
  \<^verbatim>\<open>and\<close>, \<^verbatim>\<open>or\<close> for truthiness, in a fixed order. A field is \<open>None\<close> when it is absent (or
  falsy) and \<open>Some v\<close> when it is present and truthy; for the two numeric time fields \<open>v\<close>
  is the number the field denotes (the ledger sends decimal strings, which \<^verbatim>\<open>parseInt\<close> and
  \<^verbatim>\<open>*\<close> convert). Of \<^verbatim>\<open>abs_before\<close>, an ISO date string, only the presence is ever tested.
\<close>

datatype predicate =
  Predicate (abs_after: "int option") (abs_before: bool) (abs_before_epoch: "int option")
            (not_field: "predicate option")
            (and_field: "predicate list option") (or_field: "predicate list option")

record claimant =
  destination :: string
  predicate :: "predicate option"

record balance =
  balance_id :: string
  amount :: string
  claimants :: "claimant list"

text \<open>JavaScript truthiness of a value that is \<^verbatim>\<open>null\<close> or a number.\<close>

definition truthy :: "int option \<Rightarrow> bool" where
  "truthy t = (case t of None \<Rightarrow> False | Some v \<Rightarrow> v \<noteq> 0)"

text \<open>
  \<^verbatim>\<open>findUnlockTimeInPredicate\<close> (lines 893--922). The two \<^verbatim>\<open>for\<close> loops over the
  children of \<^verbatim>\<open>and\<close> and \<^verbatim>\<open>or\<close> are the same loop, \<open>findInChildren\<close>: return the first
  child result that is truthy.
\<close>

fun findUnlockTimeInPredicate :: "predicate \<Rightarrow> int option"
  and findInChildren :: "predicate list \<Rightarrow> int option" where
  "findUnlockTimeInPredicate (Predicate aa ab abe nt an orr) =
     (case abe of
        Some e \<Rightarrow> Some (e * 1000)
      | None \<Rightarrow>
        (case (case nt of None \<Rightarrow> None | Some q \<Rightarrow> abs_before_epoch q) of
           Some e \<Rightarrow> Some (e * 1000)
         | None \<Rightarrow>
           (case (case an of None \<Rightarrow> None | Some cs \<Rightarrow> findInChildren cs) of
              Some t \<Rightarrow> Some t
            | None \<Rightarrow> (case orr of None \<Rightarrow> None | Some cs \<Rightarrow> findInChildren cs))))"
| "findInChildren [] = None"
| "findInChildren (c # cs) =
     (let time = findUnlockTimeInPredicate c
      in if truthy time then time else findInChildren cs)"

text \<open>
  \<^verbatim>\<open>extractUnlockTime\<close> (lines 880--890): the first claimant whose destination is the
  target decides; a missing predicate gives \<^verbatim>\<open>null\<close>.
\<close>

fun extractUnlockTime :: "string \<Rightarrow> claimant list \<Rightarrow> int option" where
  "extractUnlockTime targetPK [] = None"
| "extractUnlockTime targetPK (c # cs) =
     (if destination c = targetPK
      then (case predicate c of None \<Rightarrow> None | Some p \<Rightarrow> findUnlockTimeInPredicate p)
      else extractUnlockTime targetPK cs)"

text \<open>
  \<^verbatim>\<open>extractMinTime\<close> of the aggressive variant (lines 103--118): no recursion, two shapes
  only, and \<open>0\<close> for everything else.
\<close>

definition extractMinTime :: "string \<Rightarrow> balance \<Rightarrow> int" where
  "extractMinTime targetPK bal =
     (case find (\<lambda>c. destination c = targetPK) (claimants bal) of
        None \<Rightarrow> 0
      | Some c \<Rightarrow>
        (case predicate c of
           None \<Rightarrow> 0
         | Some p \<Rightarrow>
           (case abs_after p of
              Some a \<Rightarrow> a
            | None \<Rightarrow>
              (case not_field p of
                 None \<Rightarrow> 0
               | Some q \<Rightarrow> (case abs_before_epoch q of Some e \<Rightarrow> e | None \<Rightarrow> 0)))))"


text \<open>
  The resolvable time bounds of a predicate in the order the search meets them: the
  node's own \<^verbatim>\<open>abs_before_epoch\<close>, else that of its \<^verbatim>\<open>not\<close>, else those of the \<^verbatim>\<open>and\<close>
  children followed by those of the \<^verbatim>\<open>or\<close> children, each child's list without the
  instants that are \<open>0\<close> (which JavaScript takes for "nothing found").
\<close>

fun candidates :: "predicate \<Rightarrow> int list"
  and candidatesOfChildren :: "predicate list \<Rightarrow> int list" where
  "candidates (Predicate aa ab abe nt an orr) =
     (case abe of
        Some e \<Rightarrow> [e * 1000]
      | None \<Rightarrow>
        (case (case nt of None \<Rightarrow> None | Some q \<Rightarrow> abs_before_epoch q) of
           Some e \<Rightarrow> [e * 1000]
         | None \<Rightarrow>
             (case an of None \<Rightarrow> [] | Some cs \<Rightarrow> candidatesOfChildren cs)
             @ (case orr of None \<Rightarrow> [] | Some cs \<Rightarrow> candidatesOfChildren cs)))"
| "candidatesOfChildren [] = []"
| "candidatesOfChildren (c # cs) = filter (\<lambda>t. t \<noteq> 0) (candidates c) @ candidatesOfChildren cs"

definition first_of :: "int list \<Rightarrow> int option" where
  "first_of ts = (case ts of [] \<Rightarrow> None | t # rest \<Rightarrow> Some t)"

text \<open>Sample data: the usual time lock \<^verbatim>\<open>{not: {abs_before: ..., abs_before_epoch: e}}\<close>, and a balance
  with a single claimant holding a given predicate.\<close>

definition not_before :: "int \<Rightarrow> predicate" where
  "not_before e =
     Predicate None False None (Some (Predicate None True (Some e) None None None)) None None"

definition locked_balance :: "string \<Rightarrow> predicate \<Rightarrow> balance" where
  "locked_balance pk p =
     \<lparr>balance_id = ''00000000'', amount = ''837.8'',
      claimants = [\<lparr>destination = pk, predicate = Some p\<rparr>]\<rparr>"


section \<open>TransactionFactory\<close>

datatype operation =
  ClaimClaimableBalance string string
| Payment string string string

record transaction =
  tx_fee :: real
  operations :: "operation list"
  minTime :: int
  maxTime :: int
  signatures :: "string list"

text \<open>
  \<^verbatim>\<open>buildAndSign\<close> (lines 133--168). \<^verbatim>\<open>newLowerBound\<close> is computed and logged but never
  used, so it is not part of the result.
\<close>

definition buildAndSign ::
  "config \<Rightarrow> string \<Rightarrow> string \<Rightarrow> string \<Rightarrow> real \<Rightarrow> balance \<Rightarrow> transaction" where
  "buildAndSign cfg targetPK sponsorPK dest currentFee bal =
     (let unlockTime = extractMinTime targetPK bal;
          lowerBound = unlockTime;
          upperBound = unlockTime + timeboundGrace cfg
      in \<lparr>tx_fee = currentFee,
          operations = [ClaimClaimableBalance (balance_id bal) targetPK,
                        Payment dest (amount bal) targetPK],
          minTime = lowerBound, maxTime = upperBound,
          signatures = [targetPK, sponsorPK]\<rparr>)"


section \<open>SubmissionScheduler\<close>

text \<open>
  One pass of the \<^verbatim>\<open>for (const bal of balances)\<close> body of \<^verbatim>\<open>start\<close> (lines 229--241), up
  to the timer: either the balance is skipped, or the loop sleeps \<open>wait\<close> seconds and then
  builds and submits. \<open>nowMs\<close> is the value of \<^verbatim>\<open>Date.now()\<close>.
\<close>

datatype schedule = Skip | WaitThenSubmit real

definition start_schedule :: "config \<Rightarrow> string \<Rightarrow> int \<Rightarrow> balance \<Rightarrow> schedule" where
  "start_schedule cfg targetPK nowMs bal =
     (let unlockTime = extractMinTime targetPK bal
      in if unlockTime = 0 then Skip
         else (let submitTime = unlockTime - earlySubmitOffset cfg;
                   now = real_of_int nowMs / 1000;
                   wait = max (real_of_int submitTime - now) 0
               in WaitThenSubmit wait))"


section \<open>BalanceWatcher: detection\<close>

text \<open>
  \<^verbatim>\<open>hasTimeBasedPredicate\<close> (lines 857--877); the two loops over the children are the same
  loop, \<open>anyTimeBased\<close>.
\<close>

fun hasTimeBasedPredicate :: "predicate \<Rightarrow> bool"
  and anyTimeBased :: "predicate list \<Rightarrow> bool" where
  "hasTimeBasedPredicate (Predicate aa ab abe nt an orr) =
     (if ab \<or> nt \<noteq> None \<or> abe \<noteq> None then True
      else if (case an of None \<Rightarrow> False | Some cs \<Rightarrow> anyTimeBased cs) then True
      else (case orr of None \<Rightarrow> False | Some cs \<Rightarrow> anyTimeBased cs))"
| "anyTimeBased [] = False"
| "anyTimeBased (c # cs) = (if hasTimeBasedPredicate c then True else anyTimeBased cs)"

text \<open>\<^verbatim>\<open>isTimeLockedBalance\<close> (lines 843--854), on the claimants of a balance.\<close>

fun isTimeLockedBalance :: "string \<Rightarrow> claimant list \<Rightarrow> bool" where
  "isTimeLockedBalance targetPK [] = False"
| "isTimeLockedBalance targetPK (c # cs) =
     (if destination c = targetPK
      then (case predicate c of None \<Rightarrow> False | Some p \<Rightarrow> hasTimeBasedPredicate p)
      else isTimeLockedBalance targetPK cs)"

text \<open>The \<^verbatim>\<open>unlockData\<close> of the high-performance bot (lines 494--499).\<close>

record unlockData =
  unlockTime :: "int option"
  unlockBlock :: "int option"
  claimableBalance :: "balance option"
  claimableBalanceId :: "string option"

text \<open>
  The \<^verbatim>\<open>for (const balance of claimableResponse.records)\<close> loop of
  \<^verbatim>\<open>detectClaimableBalances\<close> (lines 802--832). \<open>latest\<close> is the sequence number of the
  latest ledger, or \<open>None\<close> when fetching it throws (the \<^verbatim>\<open>catch\<close> then returns \<^verbatim>\<open>false\<close>
  with the unlock time already stored); \<open>nowMs\<close> is \<^verbatim>\<open>Date.now()\<close>. The test
  \<^verbatim>\<open>if (unlockTime)\<close> fails for \<^verbatim>\<open>null\<close> and for \<open>0\<close>. The result is the returned value and the
  \<^verbatim>\<open>unlockData\<close> afterwards.
\<close>

fun detectLoop :: "string \<Rightarrow> int option \<Rightarrow> int \<Rightarrow> unlockData \<Rightarrow> balance list \<Rightarrow> bool \<times> unlockData" where
  "detectLoop targetPK latest nowMs ud [] = (False, ud)"
| "detectLoop targetPK latest nowMs ud (bal # rest) =
     (if isTimeLockedBalance targetPK (claimants bal)
      then (let ud1 = ud\<lparr>claimableBalance := Some bal,
                          claimableBalanceId := Some (balance_id bal)\<rparr>
            in case extractUnlockTime targetPK (claimants bal) of
                 None \<Rightarrow> detectLoop targetPK latest nowMs ud1 rest
               | Some t \<Rightarrow>
                   (if t = 0 then detectLoop targetPK latest nowMs ud1 rest
                    else (let ud2 = ud1\<lparr>unlockTime := Some t\<rparr>
                          in case latest of
                               None \<Rightarrow> (False, ud2)
                             | Some currentLedgerNum \<Rightarrow>
                                 (let timeUntilUnlock = t - nowMs;
                                      blocksUntilUnlock = \<lceil>real_of_int timeUntilUnlock / 5000\<rceil>;
                                      estimatedUnlockBlock = currentLedgerNum + blocksUntilUnlock
                                  in (True, ud2\<lparr>unlockBlock := Some estimatedUnlockBlock\<rparr>)))))
      else detectLoop targetPK latest nowMs ud rest)"

text \<open>
  \<^verbatim>\<open>detectClaimableBalances\<close> (lines 783--840): \<open>records\<close> is what the query for the
  target's claimable balances returns, or \<open>None\<close> when it throws.
\<close>

definition detectClaimableBalances ::
  "string \<Rightarrow> balance list option \<Rightarrow> int option \<Rightarrow> int \<Rightarrow> unlockData \<Rightarrow> bool \<times> unlockData" where
  "detectClaimableBalances targetPK records latest nowMs ud =
     (case records of
        None \<Rightarrow> (False, ud)
      | Some rs \<Rightarrow> (if rs = [] then (False, ud) else detectLoop targetPK latest nowMs ud rs))"

text \<open>The \<^verbatim>\<open>unlockData\<close> as the constructor leaves it.\<close>

definition unlockData_init :: unlockData where
  "unlockData_init =
     \<lparr>unlockTime = None, unlockBlock = None, claimableBalance = None, claimableBalanceId = None\<rparr>"


section \<open>FeeEstimator\<close>

text \<open>
  \<^verbatim>\<open>updateFeeStats\<close> of the aggressive variant (lines 120--127): \<open>p99\<close> is the parsed
  statistic; the result is the new \<^verbatim>\<open>this.currentFee\<close>.
\<close>

definition updateFeeStats_p99 :: "'a fee_config_scheme \<Rightarrow> int \<Rightarrow> real" where
  "updateFeeStats_p99 cfg p99 =
     (let fee = real_of_int p99 * feePriorityMultiplier cfg in fee * 7)"

text \<open>
  \<^verbatim>\<open>updateFeeStats\<close> of the "Claim All & Continuous Flood" variant (lines 401--407):
  \<^verbatim>\<open>Math.min(Math.ceil(fee / 100) * 100, config.maxFee)\<close>.
\<close>

definition updateFeeStats :: "'a fee_config_scheme \<Rightarrow> int \<Rightarrow> int" where
  "updateFeeStats cfg p80 =
     (let fee = max (real_of_int p80 * feePriorityMultiplier cfg) (real_of_int (baseFee cfg))
      in min (\<lceil>fee / 100\<rceil> * 100) (maxFee cfg))"

text \<open>
  \<^verbatim>\<open>updateNetworkFees\<close> of the high-performance variant (lines 758--780). The statistics
  object may be missing, and then the current fee stays as it is.
\<close>

record feeStats =
  max_fee_mode :: int
  fee_charged_min :: int
  fee_charged_p80 :: int

definition updateNetworkFees :: "'a fee_config_scheme \<Rightarrow> feeStats option \<Rightarrow> int \<Rightarrow> int" where
  "updateNetworkFees cfg stats currentFee =
     (case stats of
        None \<Rightarrow> currentFee
      | Some fs \<Rightarrow>
        (let targetFee = max (real_of_int (fee_charged_p80 fs) * feePriorityMultiplier cfg)
                             (real_of_int (baseFee cfg));
             targetFee = min targetFee (real_of_int (maxFee cfg));
             targetFee = max targetFee (real_of_int (fee_charged_min fs))
         in \<lceil>targetFee / 100\<rceil> * 100))"

text \<open>
  The quote as the specification words it: clamp the scaled percentile between floor and
  ceiling, then round up to a multiple of 100.
\<close>

definition clamp :: "real \<Rightarrow> real \<Rightarrow> real \<Rightarrow> real" where
  "clamp x lo hi = min (max x lo) hi"

definition quote_spec :: "int \<Rightarrow> real \<Rightarrow> int \<Rightarrow> int \<Rightarrow> int" where
  "quote_spec pXX multiplier floor_fee ceiling_fee =
     \<lceil>clamp (max (real_of_int pXX * multiplier) (real_of_int floor_fee))
            (real_of_int floor_fee) (real_of_int ceiling_fee) / 100\<rceil> * 100"


section \<open>SubmissionEngine\<close>

text \<open>
  The ledger's answer to a submission: accepted, or an exception carrying one of the
  error categories. The code catches every exception alike. The server is an oracle
  giving the answer to the \<open>k\<close>-th submission of a run, counted from \<open>0\<close>.
\<close>

datatype errorCategory = AlreadyClaimed | Malformed | FeeTooLow | BadSequence | Transport

datatype outcome = Accepted | Failed errorCategory

type_synonym server = "nat \<Rightarrow> outcome"

text \<open>
  \<^verbatim>\<open>submitWithRetries\<close> of the aggressive variant (lines 170--198). The result is the
  list of fees of the submissions issued, in order, and whether one was accepted. The
  \<^verbatim>\<open>for\<close> loop runs \<open>attempt\<close> from \<open>1\<close> while \<open>attempt \<le> maxSubmissionAttempts\<close>.
\<close>

function feeBumpLoop :: "'a fee_config_scheme \<Rightarrow> server \<Rightarrow> nat \<Rightarrow> real \<Rightarrow> real list \<times> bool" where
  "feeBumpLoop cfg srv attempt currentFee =
     (if attempt \<le> maxSubmissionAttempts cfg
      then (let currentFee = currentFee * feePriorityMultiplier cfg
            in case srv attempt of
                 Accepted \<Rightarrow> ([currentFee], True)
               | Failed e \<Rightarrow>
                   (let r = feeBumpLoop cfg srv (attempt + 1) currentFee
                    in (currentFee # fst r, snd r)))
      else ([], False))"
  by pat_completeness auto
termination
  by (relation "measure (\<lambda>(cfg, srv, attempt, fee). Suc (maxSubmissionAttempts cfg) - attempt)")
     auto

declare feeBumpLoop.simps [simp del]

definition submitWithRetries :: "'a fee_config_scheme \<Rightarrow> server \<Rightarrow> real \<Rightarrow> real list \<times> bool" where
  "submitWithRetries cfg srv currentFee =
     (case srv 0 of
        Accepted \<Rightarrow> ([currentFee], True)
      | Failed e \<Rightarrow>
          (let r = feeBumpLoop cfg srv 1 currentFee in (currentFee # fst r, snd r)))"

text \<open>
  The inner \<^verbatim>\<open>while (attempt < config.maxSubmissionAttempts)\<close> loop of \<^verbatim>\<open>start\<close> in the
  continuous-flood variant (lines 365--393): build with the current fee, submit, and on
  any exception count the attempt and bump the fee. The result is the list of fees
  submitted, whether one was accepted, and the fee left in \<^verbatim>\<open>this.currentFee\<close>. An
  attempt that fails while loading the sponsor account counts like a rejected submission;
  the duplicates flooded after a success are not in the list.
\<close>

function claimLoop :: "'a fee_config_scheme \<Rightarrow> server \<Rightarrow> nat \<Rightarrow> int \<Rightarrow> int list \<times> bool \<times> int" where
  "claimLoop cfg srv attempt currentFee =
     (if attempt < maxSubmissionAttempts cfg
      then (case srv attempt of
              Accepted \<Rightarrow> ([currentFee], True, currentFee)
            | Failed e \<Rightarrow>
                (let bumped = min (\<lceil>real_of_int currentFee * feePriorityMultiplier cfg / 100\<rceil> * 100)
                                  (maxFee cfg);
                     r = claimLoop cfg srv (attempt + 1) bumped
                 in (currentFee # fst r, snd r)))
      else ([], False, currentFee))"
  by pat_completeness auto
termination
  by (relation "measure (\<lambda>(cfg, srv, attempt, fee). maxSubmissionAttempts cfg - attempt)") auto

declare claimLoop.simps [simp del]


text \<open>
  The high-performance variant keeps its state in fields of the bot object:
  \<^verbatim>\<open>submissionStatus\<close>, \<^verbatim>\<open>networkStats.currentFee\<close> and the account cache (of which only
  "has the sponsor account been loaded" matters to the build step).
\<close>

record sweeper =
  preparing :: bool
  submitted :: bool
  confirmed :: bool
  attempts :: nat
  currentFee :: int
  sponsorLoaded :: bool

text \<open>
  What one call of \<^verbatim>\<open>refreshAccountData\<close> (lines 724--749) meets: loading the accounts
  throws, or the accounts load and the fee statistics throw, or both arrive (the
  statistics possibly without \<^verbatim>\<open>fee_charged\<close>).
\<close>

datatype refresh = AccountsFailed | StatsFailed | Refreshed "feeStats option"

definition refreshAccountData :: "'a fee_config_scheme \<Rightarrow> refresh \<Rightarrow> sweeper \<Rightarrow> sweeper" where
  "refreshAccountData cfg r st =
     (case r of
        AccountsFailed \<Rightarrow> st
      | StatsFailed \<Rightarrow> st\<lparr>sponsorLoaded := True\<rparr>
      | Refreshed stats \<Rightarrow>
          st\<lparr>sponsorLoaded := True, currentFee := updateNetworkFees cfg stats (currentFee st)\<rparr>)"

text \<open>\<^verbatim>\<open>Math.round\<close>: to the nearest integer, halves upwards.\<close>

definition math_round :: "real \<Rightarrow> int" where
  "math_round x = \<lfloor>x + 1 / 2\<rfloor>"

text \<open>
  \<^verbatim>\<open>prepareAndSubmitTransaction\<close> (lines 983--1222). Every path through the body of its
  \<^verbatim>\<open>for (let i = 0; i <= 5; i++)\<close> loop returns, so the body runs once per call; a retry is
  the recursive call at line 1195. \<open>horizons\<close> is the number of configured endpoints,
  \<open>refreshes k\<close> and \<open>responses k i\<close> are what the \<open>k\<close>-th call meets when it refreshes and
  when it submits to endpoint \<open>i\<close>. With no sponsor account in the cache the builder and its
  fallback both throw, and the outer \<^verbatim>\<open>catch\<close> returns \<^verbatim>\<open>false\<close>. The result is the fees of the
  submissions issued, the returned value (\<open>None\<close> for \<^verbatim>\<open>undefined\<close>) and the state.
\<close>

function prepareAndSubmitTransaction ::
  "'a fee_config_scheme \<Rightarrow> nat \<Rightarrow> (nat \<Rightarrow> refresh) \<Rightarrow> (nat \<Rightarrow> nat \<Rightarrow> outcome) \<Rightarrow> nat \<Rightarrow> bool \<Rightarrow> sweeper
     \<Rightarrow> int list \<times> bool option \<times> sweeper" where
  "prepareAndSubmitTransaction cfg horizons refreshes responses k prepareOnly st =
     (if submitted st then ([], None, st)
      else if prepareOnly \<and> preparing st then ([], None, st)
      else
        (let st1 = refreshAccountData cfg (refreshes k) (st\<lparr>preparing := True\<rparr>)
         in if \<not> sponsorLoaded st1 then ([], Some False, st1\<lparr>preparing := False\<rparr>)
            else if prepareOnly then ([], None, st1)
            else
              (let fee = currentFee st1;
                   st2 = st1\<lparr>submitted := True, attempts := attempts st1 + 1\<rparr>;
                   results = map (responses k) [0..<horizons];
                   sent = map (\<lambda>r. fee) results
               in if filter (\<lambda>r. r = Accepted) results \<noteq> []
                  then (sent, Some True, st2\<lparr>confirmed := True\<rparr>)
                  else if attempts st2 < maxSubmissionAttempts cfg
                  then (let st3 = st2\<lparr>submitted := False,
                                       currentFee := min (math_round (real_of_int (currentFee st2) * (3 / 2)))
                                                         (maxFee cfg)\<rparr>;
                            r = prepareAndSubmitTransaction cfg horizons refreshes responses
                                  (k + 1) False st3
                        in (sent @ fst r, snd r))
                  else (sent, Some False, st2))))"
  by pat_completeness auto
termination
  by (relation "measure (\<lambda>(cfg, horizons, refreshes, responses, k, prepareOnly, st).
                   maxSubmissionAttempts cfg - attempts st)")
     (auto simp: refreshAccountData_def split: refresh.splits)

declare prepareAndSubmitTransaction.simps [simp del]

text \<open>The bot as its constructor leaves it (lines 486--513).\<close>

definition sweeper_init :: "'a fee_config_scheme \<Rightarrow> sweeper" where
  "sweeper_init cfg =
     \<lparr>preparing = False, submitted = False, confirmed = False, attempts = 0,
      currentFee = baseFee cfg * 3, sponsorLoaded = False\<rparr>"


section \<open>LedgerClock\<close>

text \<open>
  The block monitor of \<^verbatim>\<open>src/pi-js-bot.js\<close>. \<^verbatim>\<open>closed_at\<close> is the close time in
  milliseconds (\<^verbatim>\<open>new Date(...).getTime()\<close>). The average is a JavaScript number; it is
  modelled by the real number it approximates.
\<close>

record ledger =
  sequence :: int
  closed_at :: int

record clock =
  latestLedgerNum :: int
  lastLedgerCloseTime :: int
  avgBlockTimeMs :: real
  blockTimes :: "int list"

text \<open>The constructor's fields (lines 62--67) with the first ledger read by
  \<^verbatim>\<open>startBlockMonitoring\<close> (lines 163--165).\<close>

definition startBlockMonitoring :: "ledger \<Rightarrow> clock" where
  "startBlockMonitoring latestLedger =
     \<lparr>latestLedgerNum = sequence latestLedger, lastLedgerCloseTime = closed_at latestLedger,
      avgBlockTimeMs = 5000, blockTimes = []\<rparr>"

text \<open>One run of the interval callback (lines 170--198) on the ledger it fetched.\<close>

definition onTick :: "clock \<Rightarrow> ledger \<Rightarrow> clock" where
  "onTick st currentLedger =
     (if sequence currentLedger > latestLedgerNum st
      then (let blockTime = closed_at currentLedger - lastLedgerCloseTime st;
                pushed = blockTimes st @ [blockTime];
                kept = (if length pushed > 10 then tl pushed else pushed)
            in \<lparr>latestLedgerNum = sequence currentLedger,
                lastLedgerCloseTime = closed_at currentLedger,
                avgBlockTimeMs = real_of_int (sum_list kept) / real (length kept),
                blockTimes = kept\<rparr>)
      else st)"

text \<open>\<^verbatim>\<open>expectedNextBlockTime\<close> of \<^verbatim>\<open>checkUnlockTimeProximity\<close> (line 239).\<close>

definition expectedNextBlockTime :: "clock \<Rightarrow> real" where
  "expectedNextBlockTime st = real_of_int (lastLedgerCloseTime st) + avgBlockTimeMs st"

definition monitor :: "ledger \<Rightarrow> ledger list \<Rightarrow> clock" where
  "monitor first ticks = foldl onTick (startBlockMonitoring first) ticks"

text \<open>
  The estimate as the specification words it, over the whole history: the observed
  ledgers are the first one and every later one with a higher sequence number than the
  last observed; the intervals are the differences of consecutive close times; the
  estimate is the last close time plus the mean of the last \<open>K\<close> intervals, or plus the
  default interval when there is none.
\<close>

fun observed :: "ledger \<Rightarrow> ledger list \<Rightarrow> ledger list" where
  "observed l [] = [l]"
| "observed l (t # ts) = (if sequence t > sequence l then l # observed t ts else observed l ts)"

fun intervals :: "int list \<Rightarrow> int list" where
  "intervals (a # b # cs) = (b - a) # intervals (b # cs)"
| "intervals cs = []"

definition recent :: "nat \<Rightarrow> 'a list \<Rightarrow> 'a list" where
  "recent K xs = drop (length xs - K) xs"

definition mean :: "int list \<Rightarrow> real" where
  "mean xs = real_of_int (sum_list xs) / real (length xs)"

definition estimateNextClose_spec :: "nat \<Rightarrow> real \<Rightarrow> ledger \<Rightarrow> ledger list \<Rightarrow> real" where
  "estimateNextClose_spec K default_interval first ticks =
     (let closes = map closed_at (observed first ticks);
          window = recent K (intervals closes)
      in real_of_int (last closes) + (if window = [] then default_interval else mean window))"


section \<open>Flood submission\<close>

text \<open>
  The flood bot of \<^verbatim>\<open>src/pi-js-bot.js\<close>: the fields of the object that the flood reads
  and writes. \<^verbatim>\<open>this.baseFee\<close> starts as the number the constructor is given, and
  \<^verbatim>\<open>initializeKeypairs\<close> (lines 93--94) replaces it by \<^verbatim>\<open>max_fee.max\<close> of the fee
  statistics, which the ledger sends as a decimal string; \<open>StringFee b\<close> is the string that
  denotes \<open>b\<close>. Fees and the increment are natural numbers.
\<close>

datatype base_fee = NumberFee nat | StringFee nat

text \<open>
  A prepared candidate. \<open>sequence\<close> is the sequence number of the built transaction: the
  SDK's builder numbers a transaction one above the account object it is given.
  \<open>builtOn\<close> is the number of that account object (\<^verbatim>\<open>newSequence\<close>). \<open>fee\<close> is the number
  that the stored fee denotes, \<open>sponsored\<close> says whether the candidate is wrapped in a fee
  bump.
\<close>

record candidate =
  builtOn :: int
  sequence_number :: int
  fee :: nat
  index :: nat
  sponsored :: bool

record flood_bot =
  txCount :: nat
  useFeeSponsor :: bool
  bot_baseFee :: base_fee
  feeIncrement :: nat
  txSpacingMs :: int
  isRunning :: bool
  transactions :: "candidate list"

text \<open>
  What \<^verbatim>\<open>prepareTransactions\<close> meets outside the bot: the sequence number of the source
  account as \<^verbatim>\<open>loadAccount\<close> returns it (\<open>None\<close> when loading throws), whether the sponsor
  account loads, and which per-operation fees the SDK takes when it builds, signs and
  wraps a transaction (it throws for the others).
\<close>

record flood_env =
  sourceLoad :: "int option"
  sponsorLoad :: bool
  feeAccepted :: "nat \<Rightarrow> bool"

text \<open>
  The fee field of a transaction holds 32 bits and is set to the per-operation fee times
  the number of operations, here two; a larger fee makes signing throw.
\<close>

definition fitsFeeField :: "nat \<Rightarrow> bool" where
  "fitsFeeField perOperation = (2 * perOperation \<le> 4294967295)"

text \<open>The number of decimal digits of a number, as \<^verbatim>\<open>String\<close> prints it.\<close>

fun digits :: "nat \<Rightarrow> nat" where
  "digits n = (if n < 10 then 1 else Suc (digits (n div 10)))"

declare digits.simps [simp del]

text \<open>
  \<^verbatim>\<open>this.baseFee + (i * this.feeIncrement)\<close> (line 362): a sum when the base fee is a
  number, and the base fee followed by the digits of \<open>i * feeIncrement\<close> when it is a
  string (a number below \<open>10^21\<close> prints as its plain digits). The result is the number
  that the fee denotes.
\<close>

definition candidateFee :: "flood_bot \<Rightarrow> nat \<Rightarrow> nat" where
  "candidateFee self i =
     (case bot_baseFee self of
        NumberFee b \<Rightarrow> b + i * feeIncrement self
      | StringFee b \<Rightarrow> b * 10 ^ digits (i * feeIncrement self) + i * feeIncrement self)"

text \<open>
  The body of the \<^verbatim>\<open>for\<close> loop of \<^verbatim>\<open>prepareTransactions\<close> (lines 360--419) for index \<open>i\<close>,
  when nothing throws.
\<close>

definition buildCandidate :: "flood_bot \<Rightarrow> int \<Rightarrow> nat \<Rightarrow> candidate" where
  "buildCandidate self sourceSequence i =
     (let fee = candidateFee self i;
          currentSequence = sourceSequence;
          newSequence = currentSequence + 1
      in \<lparr>builtOn = newSequence, sequence_number = newSequence + 1, fee = fee, index = i,
          sponsored = useFeeSponsor self\<rparr>)"

text \<open>
  The loop itself, from index \<open>i\<close> with the candidates pushed so far: it stops with an
  exception at the first fee the SDK refuses, leaving what it has pushed.
\<close>

datatype completion = Completed | Threw

function buildLoop ::
  "flood_bot \<Rightarrow> flood_env \<Rightarrow> int \<Rightarrow> nat \<Rightarrow> candidate list \<Rightarrow> completion \<times> candidate list" where
  "buildLoop self env sourceSequence i pushed =
     (if i < txCount self
      then (if feeAccepted env (candidateFee self i)
            then buildLoop self env sourceSequence (i + 1)
                   (pushed @ [buildCandidate self sourceSequence i])
            else (Threw, pushed))
      else (Completed, pushed))"
  by pat_completeness auto
termination
  by (relation "measure (\<lambda>(self, env, sourceSequence, i, pushed). txCount self - i)") auto

declare buildLoop.simps [simp del]

text \<open>
  \<^verbatim>\<open>this.transactions.sort((a, b) => b.fee - a.fee)\<close>: a stable sort, highest fee first;
  the subtraction compares the fees as numbers.
\<close>

definition sortByFeeDesc :: "candidate list \<Rightarrow> candidate list" where
  "sortByFeeDesc txs = sort_key (\<lambda>t. - int (fee t)) txs"

text \<open>
  \<^verbatim>\<open>prepareTransactions\<close> (lines 332--429): the result says whether it completed or threw,
  and gives the bot afterwards. It throws when an account does not load, when the SDK
  refuses a fee, and, with nothing to prepare, when the closing log line reads the fee
  of the last element of the empty list. \<^verbatim>\<open>this.transactions\<close> is reset before the loop
  and holds the candidates pushed so far when the loop throws.
\<close>

definition prepareTransactions :: "flood_bot \<Rightarrow> flood_env \<Rightarrow> completion \<times> flood_bot" where
  "prepareTransactions self env =
     (case sourceLoad env of
        None \<Rightarrow> (Threw, self)
      | Some sourceSequence \<Rightarrow>
          (if useFeeSponsor self \<and> \<not> sponsorLoad env then (Threw, self)
           else (case buildLoop self env sourceSequence 0 [] of
                   (Threw, pushed) \<Rightarrow> (Threw, self\<lparr>transactions := pushed\<rparr>)
                 | (Completed, pushed) \<Rightarrow>
                     (let sorted_txs = sortByFeeDesc pushed
                      in if sorted_txs = [] then (Threw, self\<lparr>transactions := sorted_txs\<rparr>)
                         else (Completed, self\<lparr>transactions := sorted_txs\<rparr>)))))"

text \<open>
  \<^verbatim>\<open>executeFlood\<close> (lines 434--504). The submission loop hands candidate \<open>i\<close> of the list
  to \<^verbatim>\<open>setTimeout\<close> with the delay \<open>i * txSpacingMs\<close>; the result pairs each delay with its
  candidate, in loop order, and gives the bot afterwards. A flood already running does
  nothing; an exception from preparing is caught and nothing is submitted.
\<close>

fun staggerFrom :: "int \<Rightarrow> nat \<Rightarrow> candidate list \<Rightarrow> (int \<times> candidate) list" where
  "staggerFrom spacing i [] = []"
| "staggerFrom spacing i (txInfo # rest) =
     (int i * spacing, txInfo) # staggerFrom spacing (Suc i) rest"

definition executeFlood :: "flood_bot \<Rightarrow> flood_env \<Rightarrow> (int \<times> candidate) list \<times> flood_bot" where
  "executeFlood self env =
     (if isRunning self then ([], self)
      else (let self1 = self\<lparr>isRunning := True\<rparr>
            in if transactions self1 = []
               then (case prepareTransactions self1 env of
                       (Threw, self2) \<Rightarrow> ([], self2)
                     | (Completed, self2) \<Rightarrow>
                         (staggerFrom (txSpacingMs self2) 0 (transactions self2), self2))
               else (staggerFrom (txSpacingMs self1) 0 (transactions self1), self1)))"

text \<open>
  Sample data: a bot with the constructor's default fees and spacing and three candidates
  to build, the same bot after \<^verbatim>\<open>initializeKeypairs\<close> has stored the string "100000", and
  a ledger where both accounts load, the source account at sequence number 41.
\<close>

definition sample_bot :: flood_bot where
  "sample_bot =
     \<lparr>txCount = 3, useFeeSponsor = True, bot_baseFee = NumberFee 100000, feeIncrement = 20000,
      txSpacingMs = 15, isRunning = False, transactions = []\<rparr>"


definition sample_env :: flood_env where
  "sample_env = \<lparr>sourceLoad = Some 41, sponsorLoad = True, feeAccepted = fitsFeeField\<rparr>"



section \<open>Scheduler: the suspension before an early submit\<close>

text \<open>
  C7. For a resource whose unlock time \<open>T\<close> resolves (is not \<open>0\<close>), the scheduler waits
  \<open>max (T - earlySubmitOffset - now) 0\<close> seconds, \<open>now\<close> being the clock in seconds; the
  wait is never negative, and with an offset of one second and the clock ten seconds
  before \<open>T\<close> it is nine seconds.
\<close>

theorem start_schedule_wait:
  assumes "extractMinTime targetPK bal = T" and "T \<noteq> 0"
  shows "start_schedule cfg targetPK nowMs bal =
           WaitThenSubmit (max (real_of_int T - real_of_int (earlySubmitOffset cfg)
                                 - real_of_int nowMs / 1000) 0)
         \<and> (earlySubmitOffset cfg = 1 \<and> nowMs = (T - 10) * 1000 \<longrightarrow>
              start_schedule cfg targetPK nowMs bal = WaitThenSubmit 9)"
  using assms by (simp add: start_schedule_def Let_def diff_divide_distrib)

theorem start_schedule_wait_witness:
  "extractMinTime ''GT'' (locked_balance ''GT'' (not_before 1000)) = 1000 \<and> (1000::int) \<noteq> 0
   \<and> start_schedule config_aggressive ''GT'' 990000 (locked_balance ''GT'' (not_before 1000))
       = WaitThenSubmit 9"
proof -
  have e: "extractMinTime ''GT'' (locked_balance ''GT'' (not_before 1000)) = 1000"
    by (simp add: extractMinTime_def locked_balance_def not_before_def)
  have n: "(1000::int) \<noteq> 0" by simp
  have o: "earlySubmitOffset config_aggressive = 1"
    by (simp add: config_aggressive_def)
  from start_schedule_wait [OF e n, of config_aggressive 990000] o
  have "start_schedule config_aggressive ''GT'' 990000 (locked_balance ''GT'' (not_before 1000))
          = WaitThenSubmit 9"
    by simp
  with e n show ?thesis by simp
qed


section \<open>TransactionFactory: the validity window\<close>

text \<open>
  C1. The documentation of \<^verbatim>\<open>buildAndSign\<close> promises the lower time bound
  \<open>unlockTime - earlySubmitOffset\<close> and the upper bound \<open>unlockTime + grace\<close>. The code sets
  the lower bound to the unlock time itself, for every balance; the upper bound is as
  promised. For a balance unlocking at \<open>1000\<close> under the configured offset of one second
  the lower bound is \<open>1000\<close>, where the documented value is \<open>999\<close>.
\<close>

theorem buildAndSign_lower_bound_is_unlock_time:
  "minTime (buildAndSign cfg targetPK sponsorPK dest bid bal) = extractMinTime targetPK bal
   \<and> maxTime (buildAndSign cfg targetPK sponsorPK dest bid bal)
       = extractMinTime targetPK bal + timeboundGrace cfg
   \<and> extractMinTime ''GT'' (locked_balance ''GT'' (not_before 1000)) = 1000
   \<and> minTime (buildAndSign config_aggressive ''GT'' ''GS'' ''GD'' 3500000
                 (locked_balance ''GT'' (not_before 1000))) = 1000
   \<and> 1000 - earlySubmitOffset config_aggressive = 999"
  by (simp add: buildAndSign_def Let_def extractMinTime_def locked_balance_def not_before_def
        config_aggressive_def)


section \<open>BalanceWatcher: which time bound the search returns\<close>

lemma candidatesOfChildren_nonzero: "0 \<notin> set (candidatesOfChildren cs)"
  by (induction cs) auto

lemma first_of_append: "first_of (xs @ ys) = (case first_of xs of Some t \<Rightarrow> Some t | None \<Rightarrow> first_of ys)"
  by (cases xs) (auto simp: first_of_def)

lemma first_of_filter_truthy:
  "first_of xs = Some t \<Longrightarrow> t \<noteq> 0 \<Longrightarrow> first_of (filter (\<lambda>t. t \<noteq> 0) xs) = Some t"
  by (cases xs) (auto simp: first_of_def)

lemma first_of_single [simp]: "first_of [t] = Some t" "first_of [] = None"
  by (simp_all add: first_of_def)

lemma candidates_shape: "(\<exists>t. candidates p = [t]) \<or> 0 \<notin> set (candidates p)"
proof (cases p)
  case (Predicate aa ab abe nt an orr)
  have "0 \<notin> set (case an of None \<Rightarrow> [] | Some cs \<Rightarrow> candidatesOfChildren cs)"
       "0 \<notin> set (case orr of None \<Rightarrow> [] | Some cs \<Rightarrow> candidatesOfChildren cs)"
    by (simp_all add: candidatesOfChildren_nonzero split: option.split)
  with Predicate show ?thesis
    by (cases abe; cases "case nt of None \<Rightarrow> None | Some q \<Rightarrow> abs_before_epoch q") simp_all
qed

lemma find_first_of:
  "findUnlockTimeInPredicate p = first_of (candidates p)"
  "findInChildren cs = first_of (candidatesOfChildren cs)"
proof (induction p and cs rule: findUnlockTimeInPredicate_findInChildren.induct)
  case (1 aa ab abe nt an orr)
  show ?case
  proof (cases abe)
    case (Some e)
    then show ?thesis by simp
  next
    case abeNone: None
    show ?thesis
    proof (cases "case nt of None \<Rightarrow> None | Some q \<Rightarrow> abs_before_epoch q")
      case (Some e)
      with abeNone show ?thesis by simp
    next
      case ntNone: None
      have a: "(case an of None \<Rightarrow> None | Some cs \<Rightarrow> findInChildren cs)
                 = first_of (case an of None \<Rightarrow> [] | Some cs \<Rightarrow> candidatesOfChildren cs)"
        using "1.IH"(1) [OF abeNone ntNone] by (cases an) simp_all
      show ?thesis
      proof (cases "first_of (case an of None \<Rightarrow> [] | Some cs \<Rightarrow> candidatesOfChildren cs)")
        case (Some t)
        with abeNone ntNone a show ?thesis by (simp add: first_of_append)
      next
        case anNone: None
        with a have anNone': "(case an of None \<Rightarrow> None | Some cs \<Rightarrow> findInChildren cs) = None"
          by simp
        have b: "(case orr of None \<Rightarrow> None | Some cs \<Rightarrow> findInChildren cs)
                   = first_of (case orr of None \<Rightarrow> [] | Some cs \<Rightarrow> candidatesOfChildren cs)"
          using "1.IH"(2) [OF abeNone ntNone anNone'] by (cases orr) simp_all
        from abeNone ntNone anNone a b show ?thesis by (simp add: first_of_append)
      qed
    qed
  qed
next
  case 2
  then show ?case by simp
next
  case (3 c cs)
  let ?r = "findUnlockTimeInPredicate c"
  have r: "?r = first_of (candidates c)" by (rule "3.IH"(1))
  show ?case
  proof (cases "truthy ?r")
    case True
    then obtain t where t: "?r = Some t" "t \<noteq> 0"
      by (auto simp: truthy_def split: option.splits)
    with r have "first_of (candidates c) = Some t" by simp
    then have "first_of (filter (\<lambda>t. t \<noteq> 0) (candidates c)) = Some t"
      using t(2) by (rule first_of_filter_truthy)
    with True t show ?thesis by (simp add: Let_def first_of_append)
  next
    case False
    have rest: "findInChildren cs = first_of (candidatesOfChildren cs)"
      using "3.IH"(2) [OF refl False] .
    have "filter (\<lambda>t. t \<noteq> 0) (candidates c) = []"
    proof (cases "candidates c")
      case Nil
      then show ?thesis by simp
    next
      case (Cons t ts)
      with r have "?r = Some t" by (simp add: first_of_def)
      with False have "t = 0" by (simp add: truthy_def)
      with Cons candidates_shape [of c] show ?thesis by auto
    qed
    with False rest show ?thesis by (simp add: Let_def)
  qed
qed

lemma detectLoop_frame:
  "fst (detectLoop pk latest nowMs (ud\<lparr>claimableBalance := x, claimableBalanceId := y\<rparr>) bs)
     = fst (detectLoop pk latest nowMs ud bs)
   \<and> unlockTime (snd (detectLoop pk latest nowMs (ud\<lparr>claimableBalance := x, claimableBalanceId := y\<rparr>) bs))
     = unlockTime (snd (detectLoop pk latest nowMs ud bs))
   \<and> unlockBlock (snd (detectLoop pk latest nowMs (ud\<lparr>claimableBalance := x, claimableBalanceId := y\<rparr>) bs))
     = unlockBlock (snd (detectLoop pk latest nowMs ud bs))"
proof (induction bs arbitrary: ud x y)
  case Nil
  then show ?case by simp
next
  case (Cons b bs)
  show ?case
  proof (cases "isTimeLockedBalance pk (claimants b)")
    case False
    with Cons show ?thesis by simp
  next
    case True
    then show ?thesis
      by (simp add: Let_def split: option.split)
  qed
qed

lemma detectClaimableBalances_loop:
  "detectClaimableBalances pk (Some rs) latest nowMs ud = detectLoop pk latest nowMs ud rs"
  by (cases rs) (simp_all add: detectClaimableBalances_def)

lemma detectLoop_skip:
  assumes "\<not> truthy (extractUnlockTime pk (claimants bal))"
  shows "fst (detectLoop pk latest nowMs ud (bal # rest)) = fst (detectLoop pk latest nowMs ud rest)
   \<and> unlockTime (snd (detectLoop pk latest nowMs ud (bal # rest)))
       = unlockTime (snd (detectLoop pk latest nowMs ud rest))
   \<and> unlockBlock (snd (detectLoop pk latest nowMs ud (bal # rest)))
       = unlockBlock (snd (detectLoop pk latest nowMs ud rest))"
proof (cases "isTimeLockedBalance pk (claimants bal)")
  case False
  then show ?thesis by simp
next
  case True
  from assms have "extractUnlockTime pk (claimants bal) = None
                   \<or> extractUnlockTime pk (claimants bal) = Some 0"
    by (auto simp: truthy_def split: option.splits)
  with True detectLoop_frame [where pk = pk and latest = latest and nowMs = nowMs and ud = ud
                    and x = "Some bal" and y = "Some (balance_id bal)" and bs = rest]
  show ?thesis by (auto simp: Let_def)
qed

lemma detectLoop_take:
  assumes "isTimeLockedBalance pk (claimants bal)"
    and "extractUnlockTime pk (claimants bal) = Some t" and "t \<noteq> 0"
  shows "unlockTime (snd (detectLoop pk latest nowMs ud (bal # rest))) = Some t
         \<and> claimableBalance (snd (detectLoop pk latest nowMs ud (bal # rest))) = Some bal"
  using assms by (simp add: Let_def split: option.split)

text \<open>
  C2, as the code has it. \<^verbatim>\<open>findUnlockTimeInPredicate\<close> returns the first resolvable time
  bound in the order of its search (in milliseconds), and \<^verbatim>\<open>null\<close> exactly when there is
  none; it compares no siblings, so a child of an \<^verbatim>\<open>and\<close> wins in the same way as a child
  of an \<^verbatim>\<open>or\<close>: by coming first. \<^verbatim>\<open>extractUnlockTime\<close> hands the matching claimant's predicate
  to it. The bound under a \<^verbatim>\<open>not\<close> is returned as it is, by the search and by the
  aggressive program's \<^verbatim>\<open>extractMinTime\<close> (which does not search). \<^verbatim>\<open>detectClaimableBalances\<close> passes
  over a balance for which the search returns \<^verbatim>\<open>null\<close> or \<open>0\<close>: its returned value and the
  unlock time and block it stores are those of the remaining records; and it takes the
  first time-locked balance for which the search returns a non-zero instant.
\<close>

theorem findUnlockTimeInPredicate_first_candidate:
  "findUnlockTimeInPredicate p = first_of (candidates p)
   \<and> (findUnlockTimeInPredicate p = None) = (candidates p = [])
   \<and> extractUnlockTime pk [\<lparr>destination = pk, predicate = Some p\<rparr>] = first_of (candidates p)
   \<and> findUnlockTimeInPredicate (not_before e) = Some (e * 1000)
   \<and> extractMinTime pk (locked_balance pk (not_before e)) = e
   \<and> (\<not> truthy (extractUnlockTime pk (claimants bal)) \<longrightarrow>
        fst (detectClaimableBalances pk (Some (bal # rest)) latest nowMs ud)
          = fst (detectClaimableBalances pk (Some rest) latest nowMs ud)
        \<and> unlockTime (snd (detectClaimableBalances pk (Some (bal # rest)) latest nowMs ud))
          = unlockTime (snd (detectClaimableBalances pk (Some rest) latest nowMs ud))
        \<and> unlockBlock (snd (detectClaimableBalances pk (Some (bal # rest)) latest nowMs ud))
          = unlockBlock (snd (detectClaimableBalances pk (Some rest) latest nowMs ud)))
   \<and> (isTimeLockedBalance pk (claimants bal)
        \<and> extractUnlockTime pk (claimants bal) = Some t \<and> t \<noteq> 0 \<longrightarrow>
        unlockTime (snd (detectClaimableBalances pk (Some (bal # rest)) latest nowMs ud)) = Some t
        \<and> claimableBalance (snd (detectClaimableBalances pk (Some (bal # rest)) latest nowMs ud))
          = Some bal)"
proof (intro conjI impI)
  show f: "findUnlockTimeInPredicate p = first_of (candidates p)" by (rule find_first_of(1))
  show "(findUnlockTimeInPredicate p = None) = (candidates p = [])"
    unfolding f by (cases "candidates p") (simp_all add: first_of_def)
  show "extractUnlockTime pk [\<lparr>destination = pk, predicate = Some p\<rparr>] = first_of (candidates p)"
    using f by simp
  show "findUnlockTimeInPredicate (not_before e) = Some (e * 1000)"
    by (simp add: not_before_def)
  show "extractMinTime pk (locked_balance pk (not_before e)) = e"
    by (simp add: extractMinTime_def locked_balance_def not_before_def)
next
  assume a: "\<not> truthy (extractUnlockTime pk (claimants bal))"
  note s = detectLoop_skip [OF a, of latest nowMs ud rest]
  show "fst (detectClaimableBalances pk (Some (bal # rest)) latest nowMs ud)
          = fst (detectClaimableBalances pk (Some rest) latest nowMs ud)"
    unfolding detectClaimableBalances_loop using s by blast
  show "unlockTime (snd (detectClaimableBalances pk (Some (bal # rest)) latest nowMs ud))
          = unlockTime (snd (detectClaimableBalances pk (Some rest) latest nowMs ud))"
    unfolding detectClaimableBalances_loop using s by blast
  show "unlockBlock (snd (detectClaimableBalances pk (Some (bal # rest)) latest nowMs ud))
          = unlockBlock (snd (detectClaimableBalances pk (Some rest) latest nowMs ud))"
    unfolding detectClaimableBalances_loop using s by blast
next
  assume a: "isTimeLockedBalance pk (claimants bal)
        \<and> extractUnlockTime pk (claimants bal) = Some t \<and> t \<noteq> 0"
  then have t: "unlockTime (snd (detectLoop pk latest nowMs ud (bal # rest))) = Some t
         \<and> claimableBalance (snd (detectLoop pk latest nowMs ud (bal # rest))) = Some bal"
    by (intro detectLoop_take) simp_all
  show "unlockTime (snd (detectClaimableBalances pk (Some (bal # rest)) latest nowMs ud)) = Some t"
    unfolding detectClaimableBalances_loop using t by blast
  show "claimableBalance (snd (detectClaimableBalances pk (Some (bal # rest)) latest nowMs ud))
          = Some bal"
    unfolding detectClaimableBalances_loop using t by blast
qed

text \<open>
  A run on two records: a balance whose predicate holds \<^verbatim>\<open>abs_before\<close> alone, for which
  the search finds nothing, and the usual time lock at \<open>1000\<close> seconds, with the latest
  ledger at \<open>500\<close> and the clock ten seconds before the unlock.
\<close>

theorem findUnlockTimeInPredicate_first_candidate_witness:
  "\<not> truthy (extractUnlockTime ''GT''
        (claimants (locked_balance ''GT'' (Predicate None True None None None None))))
   \<and> isTimeLockedBalance ''GT'' (claimants (locked_balance ''GT'' (not_before 1000)))
   \<and> extractUnlockTime ''GT'' (claimants (locked_balance ''GT'' (not_before 1000))) = Some 1000000
   \<and> (1000000::int) \<noteq> 0
   \<and> detectClaimableBalances ''GT''
        (Some [locked_balance ''GT'' (Predicate None True None None None None),
               locked_balance ''GT'' (not_before 1000)])
        (Some 500) 990000 unlockData_init
      = (True, \<lparr>unlockTime = Some 1000000, unlockBlock = Some 502,
                claimableBalance = Some (locked_balance ''GT'' (not_before 1000)),
                claimableBalanceId = Some ''00000000''\<rparr>)
   \<and> unlockTime (snd (detectClaimableBalances ''GT''
        (Some [locked_balance ''GT'' (Predicate None True None None None None),
               locked_balance ''GT'' (not_before 1000)])
        (Some 500) 990000 unlockData_init)) = Some 1000000"
proof -
  let ?b1 = "locked_balance ''GT'' (Predicate None True None None None None)"
  let ?b2 = "locked_balance ''GT'' (not_before 1000)"
  have h1: "\<not> truthy (extractUnlockTime ''GT'' (claimants ?b1))"
    by (simp add: locked_balance_def truthy_def)
  have h2: "isTimeLockedBalance ''GT'' (claimants ?b2)"
    by (simp add: locked_balance_def not_before_def)
  have h3: "extractUnlockTime ''GT'' (claimants ?b2) = Some 1000000"
    by (simp add: locked_balance_def not_before_def)
  have h4: "(1000000::int) \<noteq> 0" by simp
  have run: "detectClaimableBalances ''GT'' (Some [?b1, ?b2]) (Some 500) 990000 unlockData_init
      = (True, \<lparr>unlockTime = Some 1000000, unlockBlock = Some 502,
                claimableBalance = Some ?b2, claimableBalanceId = Some ''00000000''\<rparr>)"
    by (simp add: detectClaimableBalances_def locked_balance_def not_before_def
          unlockData_init_def Let_def)
  from findUnlockTimeInPredicate_first_candidate
         [where pk = "''GT''" and bal = ?b1 and rest = "[?b2]" and latest = "Some 500"
            and nowMs = 990000 and ud = unlockData_init] h1
  have skip: "unlockTime (snd (detectClaimableBalances ''GT'' (Some [?b1, ?b2]) (Some 500) 990000
                unlockData_init))
              = unlockTime (snd (detectClaimableBalances ''GT'' (Some [?b2]) (Some 500) 990000
                unlockData_init))"
    by blast
  from findUnlockTimeInPredicate_first_candidate
         [where pk = "''GT''" and bal = ?b2 and rest = "[]" and latest = "Some 500"
            and nowMs = 990000 and ud = unlockData_init and t = 1000000] h2 h3 h4
  have take: "unlockTime (snd (detectClaimableBalances ''GT'' (Some [?b2]) (Some 500) 990000
                unlockData_init)) = Some 1000000"
    by blast
  from skip take h1 h2 h3 h4 run show ?thesis by simp
qed


text \<open>
  C2 as stated fails: in an \<^verbatim>\<open>and\<close> of two time locks, \<open>200\<close> then \<open>100\<close>, the search returns
  the first child's instant \<open>200000\<close>, which is later than the sibling's bound \<open>100000\<close>.
\<close>

theorem and_returns_first_child_not_earliest:
  "findUnlockTimeInPredicate (Predicate None False None None (Some [not_before 200, not_before 100]) None)
     = Some 200000
   \<and> findUnlockTimeInPredicate (not_before 100) = Some 100000
   \<and> \<not> (200000 \<le> (100000::int))"
  by (simp add: not_before_def truthy_def)


section \<open>FeeEstimator: the quote\<close>

lemma ceil100_min:
  assumes "100 dvd (c::int)"
  shows "\<lceil>min y (real_of_int c) / 100\<rceil> * 100 = min (\<lceil>y / 100\<rceil> * 100) c"
proof -
  from assms obtain k where k: "c = 100 * k" by (auto simp: dvd_def)
  show ?thesis
  proof (cases "y \<le> real_of_int c")
    case True
    then have "y / 100 \<le> real_of_int k" using k by simp
    then have "\<lceil>y / 100\<rceil> \<le> k" by (simp add: ceiling_le_iff)
    with True k show ?thesis by (simp add: min_def)
  next
    case False
    then have "real_of_int k < y / 100" using k by simp
    then have "k < \<lceil>y / 100\<rceil>" by (simp add: less_ceiling_iff)
    moreover have "\<lceil>real_of_int c / 100\<rceil> = k" using k by simp
    ultimately show ?thesis using False k by (simp add: min_def)
  qed
qed

text \<open>
  Where the two estimators agree with the specified quote: \<^verbatim>\<open>updateFeeStats\<close> rounds up
  first and caps at the ceiling afterwards, which is the quote whenever the ceiling is a
  multiple of 100; \<^verbatim>\<open>updateNetworkFees\<close> is the quote whenever the network's minimum charged
  fee does not exceed the clamped value.
\<close>

lemma updateFeeStats_quote:
  assumes "100 dvd maxFee cfg"
  shows "updateFeeStats cfg p80 =
           quote_spec p80 (feePriorityMultiplier cfg) (baseFee cfg) (maxFee cfg)"
  using ceil100_min [OF assms] by (simp add: updateFeeStats_def quote_spec_def clamp_def Let_def)

lemma updateNetworkFees_quote:
  assumes "real_of_int (fee_charged_min fs)
         \<le> clamp (max (real_of_int (fee_charged_p80 fs) * feePriorityMultiplier cfg)
                       (real_of_int (baseFee cfg)))
                  (real_of_int (baseFee cfg)) (real_of_int (maxFee cfg))"
  shows "updateNetworkFees cfg (Some fs) bid =
           quote_spec (fee_charged_p80 fs) (feePriorityMultiplier cfg) (baseFee cfg) (maxFee cfg)"
  using assms
  by (simp add: updateNetworkFees_def quote_spec_def clamp_def Let_def max_absorb1)

text \<open>
  C3. \<^verbatim>\<open>updateNetworkFees\<close> caps the fee at \<^verbatim>\<open>config.maxFee\<close> ("Ensure fee is within our
  limits") and then raises it to the network's minimum charged fee, so the cap is lost
  when that minimum is above it: with the shipped constants, a minimum charged fee of
  \<open>2000000\<close> and an 80th percentile of \<open>3000000\<close>, the fee is \<open>2000000\<close>, where the specified
  quote is the ceiling \<open>1000000\<close>. The constants of the scenario (multiplier \<open>10\<close>, floor
  \<open>100000\<close>, ceiling \<open>500000\<close>) are those of the aggressive program, whose estimator applies
  neither floor nor ceiling: for a percentile of \<open>50000\<close> it bids \<open>3500000\<close>, where the
  specified quote is \<open>500000\<close>.
\<close>

theorem updateNetworkFees_above_maxFee:
  "updateNetworkFees config_performance
      (Some \<lparr>max_fee_mode = 3000000, fee_charged_min = 2000000, fee_charged_p80 = 3000000\<rparr>) 300000
     = 2000000
   \<and> quote_spec 3000000 (feePriorityMultiplier config_performance) (baseFee config_performance)
        (maxFee config_performance) = 1000000
   \<and> maxFee config_performance = 1000000
   \<and> updateFeeStats_p99 config_aggressive 50000 = 3500000
   \<and> quote_spec 50000 (feePriorityMultiplier config_aggressive) (baseFee config_aggressive)
        (maxFee config_aggressive) = 500000"
  by (simp add: updateNetworkFees_def updateFeeStats_p99_def quote_spec_def clamp_def
        config_performance_def config_aggressive_def Let_def)


section \<open>SubmissionEngine: fee escalation\<close>

text \<open>
  C4. In the aggressive variant the first bid is \<open>p99 * multiplier * 7\<close> and every retry
  multiplies it by the multiplier again; \<^verbatim>\<open>config.maxFee\<close>, documented as the "ceiling for
  bidding", is never consulted. With \<open>p99 = 50000\<close> and every submission failing the bids
  are \<open>3500000\<close>, \<open>35000000\<close>, \<open>350000000\<close>, \<open>3500000000\<close>: non-decreasing, but already the first
  is above the ceiling \<open>500000\<close>.
\<close>

theorem submitWithRetries_bids_exceed_maxFee:
  "updateFeeStats_p99 config_aggressive 50000 = 3500000
   \<and> fst (submitWithRetries config_aggressive (\<lambda>k. Failed FeeTooLow) 3500000)
       = [3500000, 35000000, 350000000, 3500000000]
   \<and> real_of_int (maxFee config_aggressive) < 3500000"
  by (simp add: updateFeeStats_p99_def submitWithRetries_def feeBumpLoop.simps
        config_aggressive_def Let_def)

text \<open>
  The retry loop of the continuous-flood variant does cap its bids: from a bid within
  the ceiling, with a multiplier of at least one, its bids are non-decreasing and stay
  within the ceiling.
\<close>

lemma bump_ge:
  assumes "0 \<le> (c::int)" and "1 \<le> (m::real)"
  shows "c \<le> \<lceil>real_of_int c * m / 100\<rceil> * 100"
proof -
  have "real_of_int c * 1 \<le> real_of_int c * m"
    using assms by (intro mult_left_mono) simp_all
  then have "real_of_int c \<le> real_of_int c * m" by simp
  also have "\<dots> = (real_of_int c * m / 100) * 100" by simp
  also have "\<dots> \<le> real_of_int \<lceil>real_of_int c * m / 100\<rceil> * 100"
    by (intro mult_right_mono) (simp_all add: le_of_int_ceiling)
  finally have "real_of_int c \<le> real_of_int (\<lceil>real_of_int c * m / 100\<rceil> * 100)" by simp
  then show ?thesis by (simp only: of_int_le_iff)
qed

lemma claimLoop_bids:
  assumes "c \<le> maxFee cfg" and "0 \<le> c" and "1 \<le> feePriorityMultiplier cfg"
  shows "sorted (fst (claimLoop cfg srv a c))
         \<and> (\<forall>b \<in> set (fst (claimLoop cfg srv a c)). c \<le> b \<and> b \<le> maxFee cfg)"
  using assms
proof (induction cfg srv a c rule: claimLoop.induct)
  case (1 cfg srv attempt c)
  let ?bumped = "min (\<lceil>real_of_int c * feePriorityMultiplier cfg / 100\<rceil> * 100) (maxFee cfg)"
  show ?case
  proof (cases "attempt < maxSubmissionAttempts cfg")
    case False
    then show ?thesis by (simp add: claimLoop.simps [of cfg _ attempt])
  next
    case True
    show ?thesis
    proof (cases "srv attempt")
      case Accepted
      with True "1.prems" show ?thesis by (simp add: claimLoop.simps [of cfg _ attempt])
    next
      case (Failed e)
      have ge: "c \<le> ?bumped"
        using bump_ge [OF "1.prems"(2,3)] "1.prems"(1) by simp
      have le: "?bumped \<le> maxFee cfg" by simp
      from ge "1.prems"(2) have nn: "0 \<le> ?bumped" by linarith
      have ih: "sorted (fst (claimLoop cfg srv (attempt + 1) ?bumped))
         \<and> (\<forall>b \<in> set (fst (claimLoop cfg srv (attempt + 1) ?bumped)). ?bumped \<le> b \<and> b \<le> maxFee cfg)"
        by (rule "1.IH" [OF True Failed refl le nn "1.prems"(3)])
      have u: "fst (claimLoop cfg srv attempt c) = c # fst (claimLoop cfg srv (attempt + 1) ?bumped)"
        using True Failed by (simp add: claimLoop.simps [of cfg _ attempt c] Let_def)
      show ?thesis unfolding u using ih ge "1.prems"(1) by auto
    qed
  qed
qed


section \<open>SubmissionEngine: retries\<close>

lemma feeBumpLoop_cong:
  assumes "\<forall>k. (srv k = Accepted) = (srv' k = Accepted)"
  shows "feeBumpLoop cfg srv a f = feeBumpLoop cfg srv' a f"
  using assms
proof (induction cfg srv a f rule: feeBumpLoop.induct)
  case (1 cfg srv attempt f)
  show ?case
  proof (cases "attempt \<le> maxSubmissionAttempts cfg")
    case False
    then show ?thesis by (simp add: feeBumpLoop.simps [of cfg _ attempt])
  next
    case True
    show ?thesis
    proof (cases "srv attempt")
      case Accepted
      from "1.prems" have "(srv attempt = Accepted) = (srv' attempt = Accepted)" by blast
      with Accepted have "srv' attempt = Accepted" by simp
      with True Accepted show ?thesis by (simp add: feeBumpLoop.simps [of cfg _ attempt])
    next
      case (Failed e)
      from "1.prems" have "(srv attempt = Accepted) = (srv' attempt = Accepted)" by blast
      with Failed obtain e' where e': "srv' attempt = Failed e'"
        by (cases "srv' attempt") auto
      from "1.IH" [OF True refl Failed "1.prems"] True Failed e'
      show ?thesis by (simp add: Let_def feeBumpLoop.simps [of cfg _ attempt])
    qed
  qed
qed

lemma feeBumpLoop_length_le:
  "length (fst (feeBumpLoop cfg srv a f)) \<le> Suc (maxSubmissionAttempts cfg) - a"
proof (induction cfg srv a f rule: feeBumpLoop.induct)
  case (1 cfg srv attempt f)
  show ?case
  proof (cases "attempt \<le> maxSubmissionAttempts cfg")
    case False
    then show ?thesis by (simp add: feeBumpLoop.simps [of cfg _ attempt])
  next
    case True
    show ?thesis
    proof (cases "srv attempt")
      case Accepted
      with True show ?thesis by (simp add: feeBumpLoop.simps [of cfg _ attempt])
    next
      case (Failed e)
      from "1.IH" [OF True refl Failed] True Failed
      show ?thesis by (simp add: Let_def feeBumpLoop.simps [of cfg _ attempt])
    qed
  qed
qed

lemma feeBumpLoop_reaches:
  assumes "\<forall>k. a \<le> k \<and> k < m \<longrightarrow> srv k \<noteq> Accepted" and "a \<le> m" and "m \<le> maxSubmissionAttempts cfg"
  shows "m - a < length (fst (feeBumpLoop cfg srv a f))"
  using assms
proof (induction cfg srv a f rule: feeBumpLoop.induct)
  case (1 cfg srv attempt f)
  from "1.prems" have le: "attempt \<le> maxSubmissionAttempts cfg" by simp
  show ?case
  proof (cases "attempt = m")
    case True
    with le show ?thesis
      by (cases "srv attempt") (simp_all add: Let_def feeBumpLoop.simps [of cfg _ m])
  next
    case False
    with "1.prems" have lt: "attempt < m" by simp
    with "1.prems" obtain e where e: "srv attempt = Failed e"
      by (cases "srv attempt") auto
    have "m - (attempt + 1) < length (fst (feeBumpLoop cfg srv (attempt + 1) (f * feePriorityMultiplier cfg)))"
      using "1.IH" [OF le refl e] "1.prems" lt by simp
    with le e lt show ?thesis by (simp add: Let_def feeBumpLoop.simps [of cfg _ attempt])
  qed
qed

lemma feeBumpLoop_exhausted:
  assumes "\<forall>k. a \<le> k \<and> k \<le> maxSubmissionAttempts cfg \<longrightarrow> srv k \<noteq> Accepted"
  shows "length (fst (feeBumpLoop cfg srv a f)) = Suc (maxSubmissionAttempts cfg) - a
         \<and> \<not> snd (feeBumpLoop cfg srv a f)"
  using assms
proof (induction cfg srv a f rule: feeBumpLoop.induct)
  case (1 cfg srv attempt f)
  show ?case
  proof (cases "attempt \<le> maxSubmissionAttempts cfg")
    case False
    then show ?thesis by (simp add: feeBumpLoop.simps [of cfg _ attempt])
  next
    case True
    with "1.prems" obtain e where e: "srv attempt = Failed e"
      by (cases "srv attempt") auto
    from "1.IH" [OF True refl e] "1.prems" True e
    show ?thesis by (simp add: Let_def Suc_diff_le feeBumpLoop.simps [of cfg _ attempt])
  qed
qed

lemma submitWithRetries_length_le:
  "length (fst (submitWithRetries cfg srv bid)) \<le> Suc (maxSubmissionAttempts cfg)"
  using feeBumpLoop_length_le [of cfg srv 1 bid]
  by (cases "srv 0") (simp_all add: submitWithRetries_def Let_def)

lemma submitWithRetries_exhausted:
  assumes "\<forall>k. k \<le> maxSubmissionAttempts cfg \<longrightarrow> srv k \<noteq> Accepted"
  shows "length (fst (submitWithRetries cfg srv bid)) = Suc (maxSubmissionAttempts cfg)
         \<and> \<not> snd (submitWithRetries cfg srv bid)"
proof -
  from assms obtain e where e: "srv 0 = Failed e" by (cases "srv 0") auto
  from assms have "\<forall>k. 1 \<le> k \<and> k \<le> maxSubmissionAttempts cfg \<longrightarrow> srv k \<noteq> Accepted" by simp
  from feeBumpLoop_exhausted [OF this, of bid] e show ?thesis
    by (simp add: submitWithRetries_def Let_def)
qed

lemma submitWithRetries_reaches:
  assumes "\<forall>k. k < m \<longrightarrow> srv k \<noteq> Accepted" and "m \<le> maxSubmissionAttempts cfg"
  shows "m < length (fst (submitWithRetries cfg srv bid))"
proof (cases m)
  case 0
  then show ?thesis by (cases "srv 0") (simp_all add: submitWithRetries_def Let_def)
next
  case (Suc n)
  with assms obtain e where e: "srv 0 = Failed e" by (cases "srv 0") auto
  from assms have "\<forall>k. 1 \<le> k \<and> k < m \<longrightarrow> srv k \<noteq> Accepted" by simp
  from feeBumpLoop_reaches [OF this _ assms(2), of bid] Suc e show ?thesis
    by (simp add: submitWithRetries_def Let_def)
qed

lemma submitWithRetries_cong:
  assumes "\<forall>k. (srv k = Accepted) = (srv' k = Accepted)"
  shows "submitWithRetries cfg srv bid = submitWithRetries cfg srv' bid"
proof -
  from assms have eq: "(srv 0 = Accepted) = (srv' 0 = Accepted)" by blast
  show ?thesis
  proof (cases "srv 0")
    case Accepted
    with eq show ?thesis by (simp add: submitWithRetries_def)
  next
    case (Failed e)
    with eq obtain e' where "srv' 0 = Failed e'" by (cases "srv' 0") auto
    with Failed feeBumpLoop_cong [OF assms, of cfg 1 bid] show ?thesis
      by (simp add: submitWithRetries_def)
  qed
qed

lemma claimLoop_cong:
  assumes "\<forall>k. (srv k = Accepted) = (srv' k = Accepted)"
  shows "claimLoop cfg srv a c = claimLoop cfg srv' a c"
  using assms
proof (induction cfg srv a c rule: claimLoop.induct)
  case (1 cfg srv attempt c)
  show ?case
  proof (cases "attempt < maxSubmissionAttempts cfg")
    case False
    then show ?thesis by (simp add: claimLoop.simps [of cfg _ attempt])
  next
    case True
    from "1.prems" have eq: "(srv attempt = Accepted) = (srv' attempt = Accepted)" by blast
    show ?thesis
    proof (cases "srv attempt")
      case Accepted
      with eq have "srv' attempt = Accepted" by simp
      with True Accepted show ?thesis by (simp add: claimLoop.simps [of cfg _ attempt])
    next
      case (Failed e)
      with eq obtain e' where e': "srv' attempt = Failed e'"
        by (cases "srv' attempt") auto
      from "1.IH" [OF True Failed refl "1.prems"] True Failed e'
      show ?thesis by (simp add: Let_def claimLoop.simps [of cfg _ attempt])
    qed
  qed
qed

lemma feeBumpLoop_fees:
  "(fst (feeBumpLoop cfg srv a f) \<noteq> [] \<longrightarrow>
      hd (fst (feeBumpLoop cfg srv a f)) = f * feePriorityMultiplier cfg)
   \<and> (\<forall>k. Suc k < length (fst (feeBumpLoop cfg srv a f)) \<longrightarrow>
          srv (a + k) \<noteq> Accepted
          \<and> fst (feeBumpLoop cfg srv a f) ! Suc k
              = fst (feeBumpLoop cfg srv a f) ! k * feePriorityMultiplier cfg)"
proof (induction cfg srv a f rule: feeBumpLoop.induct)
  case (1 cfg srv attempt f)
  let ?m = "feePriorityMultiplier cfg"
  show ?case
  proof (cases "attempt \<le> maxSubmissionAttempts cfg")
    case False
    then show ?thesis by (simp add: feeBumpLoop.simps [of cfg _ attempt])
  next
    case True
    show ?thesis
    proof (cases "srv attempt")
      case Accepted
      with True show ?thesis by (simp add: feeBumpLoop.simps [of cfg _ attempt])
    next
      case (Failed e)
      let ?rest = "fst (feeBumpLoop cfg srv (attempt + 1) (f * ?m))"
      have u: "fst (feeBumpLoop cfg srv attempt f) = (f * ?m) # ?rest"
        using True Failed by (simp add: feeBumpLoop.simps [of cfg _ attempt f] Let_def)
      note ih = "1.IH" [OF True refl Failed]
      have step: "srv (attempt + k) \<noteq> Accepted
                  \<and> ((f * ?m) # ?rest) ! Suc k = ((f * ?m) # ?rest) ! k * ?m"
        if "Suc k < length ((f * ?m) # ?rest)" for k
      proof (cases k)
        case 0
        with that have "?rest \<noteq> []" by auto
        with ih have "hd ?rest = f * ?m * ?m" by blast
        with \<open>?rest \<noteq> []\<close> 0 Failed show ?thesis by (simp add: hd_conv_nth)
      next
        case (Suc j)
        with that have "Suc j < length ?rest" by simp
        with ih have "srv (attempt + 1 + j) \<noteq> Accepted \<and> ?rest ! Suc j = ?rest ! j * ?m" by blast
        with Suc show ?thesis by simp
      qed
      show ?thesis unfolding u using step by simp
    qed
  qed
qed

lemma submitWithRetries_fees:
  "fst (submitWithRetries cfg srv bid) ! 0 = bid
   \<and> (Suc k < length (fst (submitWithRetries cfg srv bid)) \<longrightarrow>
        srv k \<noteq> Accepted
        \<and> fst (submitWithRetries cfg srv bid) ! Suc k
            = fst (submitWithRetries cfg srv bid) ! k * feePriorityMultiplier cfg)"
proof (cases "srv 0")
  case Accepted
  then show ?thesis by (simp add: submitWithRetries_def)
next
  case (Failed e)
  let ?m = "feePriorityMultiplier cfg"
  let ?rest = "fst (feeBumpLoop cfg srv 1 bid)"
  have u: "fst (submitWithRetries cfg srv bid) = bid # ?rest"
    using Failed by (simp add: submitWithRetries_def Let_def)
  note l = feeBumpLoop_fees [of cfg srv 1 bid]
  have "srv k \<noteq> Accepted \<and> (bid # ?rest) ! Suc k = (bid # ?rest) ! k * ?m"
    if "Suc k < length (bid # ?rest)"
  proof (cases k)
    case 0
    with that have "?rest \<noteq> []" by auto
    with l have "hd ?rest = bid * ?m" by blast
    with \<open>?rest \<noteq> []\<close> 0 Failed show ?thesis by (simp add: hd_conv_nth)
  next
    case (Suc j)
    with that have "Suc j < length ?rest" by simp
    with l have "srv (1 + j) \<noteq> Accepted \<and> ?rest ! Suc j = ?rest ! j * ?m" by blast
    with Suc show ?thesis by simp
  qed
  then show ?thesis unfolding u by simp
qed

lemma claimLoop_fees:
  "(fst (claimLoop cfg srv a c) \<noteq> [] \<longrightarrow> hd (fst (claimLoop cfg srv a c)) = c)
   \<and> (\<forall>k. Suc k < length (fst (claimLoop cfg srv a c)) \<longrightarrow>
          srv (a + k) \<noteq> Accepted
          \<and> fst (claimLoop cfg srv a c) ! Suc k
              = min (\<lceil>real_of_int (fst (claimLoop cfg srv a c) ! k) * feePriorityMultiplier cfg / 100\<rceil>
                       * 100)
                    (maxFee cfg))"
proof (induction cfg srv a c rule: claimLoop.induct)
  case (1 cfg srv attempt c)
  let ?bump = "\<lambda>x. min (\<lceil>real_of_int x * feePriorityMultiplier cfg / 100\<rceil> * 100) (maxFee cfg)"
  show ?case
  proof (cases "attempt < maxSubmissionAttempts cfg")
    case False
    then show ?thesis by (simp add: claimLoop.simps [of cfg _ attempt])
  next
    case True
    show ?thesis
    proof (cases "srv attempt")
      case Accepted
      with True show ?thesis by (simp add: claimLoop.simps [of cfg _ attempt])
    next
      case (Failed e)
      let ?rest = "fst (claimLoop cfg srv (attempt + 1) (?bump c))"
      have u: "fst (claimLoop cfg srv attempt c) = c # ?rest"
        using True Failed by (simp add: claimLoop.simps [of cfg _ attempt c] Let_def)
      note ih = "1.IH" [OF True Failed refl]
      have step: "srv (attempt + k) \<noteq> Accepted \<and> (c # ?rest) ! Suc k = ?bump ((c # ?rest) ! k)"
        if "Suc k < length (c # ?rest)" for k
      proof (cases k)
        case 0
        with that have "?rest \<noteq> []" by auto
        with ih have "hd ?rest = ?bump c" by blast
        with \<open>?rest \<noteq> []\<close> 0 Failed show ?thesis by (simp add: hd_conv_nth)
      next
        case (Suc j)
        with that have "Suc j < length ?rest" by simp
        with ih have "srv (attempt + 1 + j) \<noteq> Accepted \<and> ?rest ! Suc j = ?bump (?rest ! j)"
          by blast
        with Suc show ?thesis by simp
      qed
      show ?thesis unfolding u using step by simp
    qed
  qed
qed

lemma claimLoop_reaches:
  assumes "\<forall>k. a \<le> k \<and> k < m \<longrightarrow> srv k \<noteq> Accepted" and "a \<le> m" and "m < maxSubmissionAttempts cfg"
  shows "m - a < length (fst (claimLoop cfg srv a c))"
  using assms
proof (induction cfg srv a c rule: claimLoop.induct)
  case (1 cfg srv attempt c)
  from "1.prems" have lt: "attempt < maxSubmissionAttempts cfg" by simp
  show ?case
  proof (cases "attempt = m")
    case True
    with lt show ?thesis
      by (cases "srv attempt") (simp_all add: Let_def claimLoop.simps [of cfg _ m])
  next
    case False
    with "1.prems" have am: "attempt < m" by simp
    with "1.prems" obtain e where e: "srv attempt = Failed e"
      by (cases "srv attempt") auto
    let ?b = "min (\<lceil>real_of_int c * feePriorityMultiplier cfg / 100\<rceil> * 100) (maxFee cfg)"
    have "m - (attempt + 1) < length (fst (claimLoop cfg srv (attempt + 1) ?b))"
      using "1.IH" [OF lt e refl] "1.prems" am by simp
    with lt e am show ?thesis by (simp add: Let_def claimLoop.simps [of cfg _ attempt])
  qed
qed

text \<open>
  C5, as the code has it. The engine never looks at the category of a failure: two
  servers that accept and fail the same submissions get the same run, whatever the
  failures are, in \<^verbatim>\<open>submitWithRetries\<close> and in the retry loop of \<^verbatim>\<open>start\<close>. While no
  submission has been accepted and attempts remain, a further submission is issued:
  after \<open>m\<close> failures, \<^verbatim>\<open>submitWithRetries\<close> submits again if \<open>m\<close> is at most
  \<^verbatim>\<open>maxSubmissionAttempts\<close>, and the loop of \<^verbatim>\<open>start\<close> if \<open>m\<close> is below it. A submission
  after the first follows a failure only, and it carries the bumped fee: in
  \<^verbatim>\<open>submitWithRetries\<close> the previous fee times the multiplier, in the loop of \<^verbatim>\<open>start\<close> the
  previous fee times the multiplier, rounded up to a multiple of 100 and capped at
  \<^verbatim>\<open>maxFee\<close>. The first submission carries the fee the engine was given.
\<close>

theorem failures_retried_whatever_category:
  "((\<forall>k. (srv k = Accepted) = (srv' k = Accepted)) \<longrightarrow>
      submitWithRetries cfg srv bid = submitWithRetries cfg srv' bid
      \<and> claimLoop fcfg srv a c = claimLoop fcfg srv' a c)
   \<and> (Accepted \<notin> srv ` {0..<m} \<and> m \<le> maxSubmissionAttempts cfg \<longrightarrow>
        m < length (fst (submitWithRetries cfg srv bid)))
   \<and> (Accepted \<notin> srv ` {0..<m} \<and> m < maxSubmissionAttempts fcfg \<longrightarrow>
        m < length (fst (claimLoop fcfg srv 0 c)))
   \<and> fst (submitWithRetries cfg srv bid) ! 0 = bid
   \<and> (fst (claimLoop fcfg srv 0 c) \<noteq> [] \<longrightarrow> fst (claimLoop fcfg srv 0 c) ! 0 = c)
   \<and> (Suc k < length (fst (submitWithRetries cfg srv bid)) \<longrightarrow>
        srv k \<noteq> Accepted
        \<and> fst (submitWithRetries cfg srv bid) ! Suc k
            = fst (submitWithRetries cfg srv bid) ! k * feePriorityMultiplier cfg)
   \<and> (Suc k < length (fst (claimLoop fcfg srv 0 c)) \<longrightarrow>
        srv k \<noteq> Accepted
        \<and> fst (claimLoop fcfg srv 0 c) ! Suc k
            = min (\<lceil>real_of_int (fst (claimLoop fcfg srv 0 c) ! k) * feePriorityMultiplier fcfg / 100\<rceil>
                     * 100)
                  (maxFee fcfg))"
proof (intro conjI impI)
  assume "\<forall>k. (srv k = Accepted) = (srv' k = Accepted)"
  then show "submitWithRetries cfg srv bid = submitWithRetries cfg srv' bid"
    and "claimLoop fcfg srv a c = claimLoop fcfg srv' a c"
    by (rule submitWithRetries_cong, rule claimLoop_cong)
next
  assume "Accepted \<notin> srv ` {0..<m} \<and> m \<le> maxSubmissionAttempts cfg"
  then have "\<forall>k. k < m \<longrightarrow> srv k \<noteq> Accepted" and "m \<le> maxSubmissionAttempts cfg"
    by force+
  then show "m < length (fst (submitWithRetries cfg srv bid))"
    by (rule submitWithRetries_reaches)
next
  assume "Accepted \<notin> srv ` {0..<m} \<and> m < maxSubmissionAttempts fcfg"
  then have "\<forall>k. 0 \<le> k \<and> k < m \<longrightarrow> srv k \<noteq> Accepted" and "m < maxSubmissionAttempts fcfg"
    by force+
  from claimLoop_reaches [OF this(1) _ this(2), of c]
  show "m < length (fst (claimLoop fcfg srv 0 c))" by simp
next
  show "fst (submitWithRetries cfg srv bid) ! 0 = bid"
    using submitWithRetries_fees [of cfg srv bid] by blast
next
  assume "fst (claimLoop fcfg srv 0 c) \<noteq> []"
  with claimLoop_fees [of fcfg srv 0 c]
  show "fst (claimLoop fcfg srv 0 c) ! 0 = c" by (simp add: hd_conv_nth)
next
  assume "Suc k < length (fst (submitWithRetries cfg srv bid))"
  with submitWithRetries_fees [of cfg srv bid k]
  show "srv k \<noteq> Accepted"
    and "fst (submitWithRetries cfg srv bid) ! Suc k
            = fst (submitWithRetries cfg srv bid) ! k * feePriorityMultiplier cfg"
    by blast+
next
  assume "Suc k < length (fst (claimLoop fcfg srv 0 c))"
  with claimLoop_fees [of fcfg srv 0 c]
  show "srv k \<noteq> Accepted"
    and "fst (claimLoop fcfg srv 0 c) ! Suc k
            = min (\<lceil>real_of_int (fst (claimLoop fcfg srv 0 c) ! k) * feePriorityMultiplier fcfg / 100\<rceil>
                     * 100)
                  (maxFee fcfg)"
    by auto
qed

text \<open>
  A run in which every answer is "already claimed": the aggressive program with its own
  constants and its first bid for a 99th percentile of \<open>50000\<close>, and the loop of \<^verbatim>\<open>start\<close>
  with the continuous-flood constants from the base fee.
\<close>

theorem failures_retried_whatever_category_witness:
  "(\<forall>k. ((\<lambda>k. Failed AlreadyClaimed) k = Accepted) = ((\<lambda>k. Failed FeeTooLow) k = Accepted))
   \<and> Accepted \<notin> (\<lambda>k. Failed AlreadyClaimed) ` {0..<(3::nat)}
   \<and> 3 \<le> maxSubmissionAttempts config_aggressive
   \<and> 3 < maxSubmissionAttempts config_flood
   \<and> submitWithRetries config_aggressive (\<lambda>k. Failed AlreadyClaimed) 3500000
       = submitWithRetries config_aggressive (\<lambda>k. Failed FeeTooLow) 3500000
   \<and> 3 < length (fst (submitWithRetries config_aggressive (\<lambda>k. Failed AlreadyClaimed) 3500000))
   \<and> 3 < length (fst (claimLoop config_flood (\<lambda>k. Failed AlreadyClaimed) 0 100000))
   \<and> fst (submitWithRetries config_aggressive (\<lambda>k. Failed AlreadyClaimed) 3500000) ! 3
       = fst (submitWithRetries config_aggressive (\<lambda>k. Failed AlreadyClaimed) 3500000) ! 2 * 10
   \<and> fst (submitWithRetries config_aggressive (\<lambda>k. Failed AlreadyClaimed) 3500000) ! 3 = 3500000000
   \<and> fst (claimLoop config_flood (\<lambda>k. Failed AlreadyClaimed) 0 100000) ! 3 = 800000"
proof -
  let ?srv = "\<lambda>k::nat. Failed AlreadyClaimed"
  let ?srv' = "\<lambda>k::nat. Failed FeeTooLow"
  have h1: "\<forall>k. (?srv k = Accepted) = (?srv' k = Accepted)" by simp
  have h2: "Accepted \<notin> ?srv ` {0..<(3::nat)} \<and> 3 \<le> maxSubmissionAttempts config_aggressive"
    by (auto simp: config_aggressive_def)
  have h3: "Accepted \<notin> ?srv ` {0..<(3::nat)} \<and> 3 < maxSubmissionAttempts config_flood"
    by (auto simp: config_flood_def)
  have m: "feePriorityMultiplier config_aggressive = 10" by (simp add: config_aggressive_def)
  have r1: "fst (submitWithRetries config_aggressive ?srv 3500000)
              = [3500000, 35000000, 350000000, 3500000000]"
    by (simp add: submitWithRetries_def feeBumpLoop.simps config_aggressive_def Let_def)
  have r2: "fst (claimLoop config_flood ?srv 0 100000)
              = [100000, 200000, 400000, 800000, 1000000]"
    by (simp add: claimLoop.simps config_flood_def Let_def)
  have h4: "Suc 2 < length (fst (submitWithRetries config_aggressive ?srv 3500000))"
    by (simp add: r1)
  note t = failures_retried_whatever_category
             [where srv = ?srv and srv' = ?srv' and cfg = config_aggressive and bid = 3500000
                and fcfg = config_flood and a = 0 and c = 100000 and m = 3 and k = 2]
  from t h1 have eq: "submitWithRetries config_aggressive ?srv 3500000
                       = submitWithRetries config_aggressive ?srv' 3500000" by blast
  from t h2 have l1: "3 < length (fst (submitWithRetries config_aggressive ?srv 3500000))"
    by blast
  from t h3 have l2: "3 < length (fst (claimLoop config_flood ?srv 0 100000))" by blast
  from t h4 have s: "fst (submitWithRetries config_aggressive ?srv 3500000) ! Suc 2
       = fst (submitWithRetries config_aggressive ?srv 3500000) ! 2
         * feePriorityMultiplier config_aggressive" by blast
  have s': "fst (submitWithRetries config_aggressive ?srv 3500000) ! 3
       = fst (submitWithRetries config_aggressive ?srv 3500000) ! 2 * 10"
    using s m by (simp add: numeral_3_eq_3)
  have v1: "fst (submitWithRetries config_aggressive ?srv 3500000) ! 3 = 3500000000"
    by (simp add: r1)
  have v2: "fst (claimLoop config_flood ?srv 0 100000) ! 3 = 800000" by (simp add: r2)
  from h1 h2 h3 eq l1 l2 s' v1 v2 show ?thesis by blast
qed

text \<open>
  C5 as stated fails: when the ledger answers every submission with "already claimed"
  (or "malformed"), the engine still goes through all its retries.
\<close>

theorem terminal_rejection_is_retried:
  "fst (submitWithRetries config_aggressive (\<lambda>k. Failed AlreadyClaimed) 3500000)
     = [3500000, 35000000, 350000000, 3500000000]
   \<and> fst (claimLoop config_flood (\<lambda>k. Failed Malformed) 0 100000)
     = [100000, 200000, 400000, 800000, 1000000]"
  by (simp add: submitWithRetries_def feeBumpLoop.simps claimLoop.simps config_aggressive_def
        config_flood_def Let_def)


section \<open>SubmissionEngine: exhaustion\<close>

lemma refreshAccountData_fields [simp]:
  "attempts (refreshAccountData cfg r st) = attempts st"
  "submitted (refreshAccountData cfg r st) = submitted st"
  "sponsorLoaded st \<Longrightarrow> sponsorLoaded (refreshAccountData cfg r st)"
  by (simp_all add: refreshAccountData_def split: refresh.splits)

lemma rounds_arith:
  fixes h a m :: nat
  assumes "Suc a < m"
  shows "h + h * max 1 (m - Suc a) \<le> h * max 1 (m - a)"
proof -
  from assms have "max 1 (m - Suc a) = m - Suc a" "max 1 (m - a) = Suc (m - Suc a)" by simp_all
  then show ?thesis by simp
qed

lemma prepareAndSubmitTransaction_length:
  "length (fst (prepareAndSubmitTransaction cfg h rf rs k po st))
     \<le> h * max 1 (maxSubmissionAttempts cfg - attempts st)"
proof (induction cfg h rf rs k po st rule: prepareAndSubmitTransaction.induct)
  case (1 cfg h rf rs k po st)
  let ?st1 = "refreshAccountData cfg (rf k) (st\<lparr>preparing := True\<rparr>)"
  let ?st2 = "?st1\<lparr>submitted := True, attempts := attempts ?st1 + 1\<rparr>"
  let ?results = "map (rs k) [0..<h]"
  let ?st3 = "?st2\<lparr>submitted := False,
                 currentFee := min (math_round (real_of_int (currentFee ?st2) * (3 / 2))) (maxFee cfg)\<rparr>"
  show ?case
  proof (cases "\<not> submitted st \<and> \<not> (po \<and> preparing st) \<and> sponsorLoaded ?st1 \<and> \<not> po")
    case False
    then show ?thesis
      by (subst prepareAndSubmitTransaction.simps) (auto simp: Let_def)
  next
    case True
    show ?thesis
    proof (cases "filter (\<lambda>r. r = Accepted) ?results \<noteq> []")
      case acc: True
      with True show ?thesis
        by (subst prepareAndSubmitTransaction.simps) (simp add: Let_def)
    next
      case noacc: False
      show ?thesis
      proof (cases "attempts ?st2 < maxSubmissionAttempts cfg")
        case False
        with True noacc show ?thesis
          by (subst prepareAndSubmitTransaction.simps) (simp add: Let_def)
      next
        case more: True
        from True have f1: "\<not> submitted st" and f2: "\<not> (po \<and> preparing st)"
          and f4: "\<not> \<not> sponsorLoaded ?st1" and f5: "\<not> po" by simp_all
        from noacc have f10: "\<not> filter (\<lambda>r. r = Accepted) ?results \<noteq> []" by simp
        have ih: "length (fst (prepareAndSubmitTransaction cfg h rf rs (k + 1) False ?st3))
                    \<le> h * max 1 (maxSubmissionAttempts cfg - attempts ?st3)"
          by (rule "1.IH" [OF f1 f2 refl f4 f5 refl refl refl refl f10 more refl])
        have a3: "attempts ?st3 = Suc (attempts st)" by simp
        from more have lt: "Suc (attempts st) < maxSubmissionAttempts cfg" by simp
        have "length (fst (prepareAndSubmitTransaction cfg h rf rs k po st))
                = h + length (fst (prepareAndSubmitTransaction cfg h rf rs (k + 1) False ?st3))"
          using True noacc more
          by (subst prepareAndSubmitTransaction.simps) (simp add: Let_def)
        also have "\<dots> \<le> h + h * max 1 (maxSubmissionAttempts cfg - Suc (attempts st))"
          using ih a3 by simp
        also have "\<dots> \<le> h * max 1 (maxSubmissionAttempts cfg - attempts st)"
          using lt by (rule rounds_arith)
        finally show ?thesis .
      qed
    qed
  qed
qed

lemma prepareAndSubmitTransaction_gave_up:
  assumes "fst (snd (prepareAndSubmitTransaction cfg h rf rs k po st)) = Some False"
    and "sponsorLoaded (snd (snd (prepareAndSubmitTransaction cfg h rf rs k po st)))"
  shows "submitted (snd (snd (prepareAndSubmitTransaction cfg h rf rs k po st)))
         \<and> maxSubmissionAttempts cfg \<le> attempts (snd (snd (prepareAndSubmitTransaction cfg h rf rs k po st)))"
  using assms
proof (induction cfg h rf rs k po st rule: prepareAndSubmitTransaction.induct)
  case (1 cfg h rf rs k po st)
  let ?st1 = "refreshAccountData cfg (rf k) (st\<lparr>preparing := True\<rparr>)"
  let ?st2 = "?st1\<lparr>submitted := True, attempts := attempts ?st1 + 1\<rparr>"
  let ?results = "map (rs k) [0..<h]"
  let ?st3 = "?st2\<lparr>submitted := False,
                 currentFee := min (math_round (real_of_int (currentFee ?st2) * (3 / 2))) (maxFee cfg)\<rparr>"
  show ?case
  proof (cases "\<not> submitted st \<and> \<not> (po \<and> preparing st) \<and> sponsorLoaded ?st1 \<and> \<not> po")
    case False
    with "1.prems" show ?thesis
      by (subst (asm) (1 2) prepareAndSubmitTransaction.simps)
         (auto simp: Let_def split: if_splits)
  next
    case True
    show ?thesis
    proof (cases "filter (\<lambda>r. r = Accepted) ?results \<noteq> []")
      case acc: True
      with True "1.prems"(1) show ?thesis
        by (subst (asm) prepareAndSubmitTransaction.simps) (simp add: Let_def)
    next
      case noacc: False
      show ?thesis
      proof (cases "attempts ?st2 < maxSubmissionAttempts cfg")
        case False
        with True noacc show ?thesis
          by (subst (1 2) prepareAndSubmitTransaction.simps) (simp add: Let_def)
      next
        case more: True
        from True have f1: "\<not> submitted st" and f2: "\<not> (po \<and> preparing st)"
          and f4: "\<not> \<not> sponsorLoaded ?st1" and f5: "\<not> po" by simp_all
        from noacc have f10: "\<not> filter (\<lambda>r. r = Accepted) ?results \<noteq> []" by simp
        have unfold: "snd (prepareAndSubmitTransaction cfg h rf rs k po st)
                = snd (prepareAndSubmitTransaction cfg h rf rs (k + 1) False ?st3)"
          using True noacc more
          by (subst prepareAndSubmitTransaction.simps) (simp add: Let_def)
        from "1.IH" [OF f1 f2 refl f4 f5 refl refl refl refl f10 more refl] "1.prems"
        show ?thesis unfolding unfold by simp
      qed
    qed
  qed
qed

lemma prepareAndSubmitTransaction_all_fail:
  "prepareAndSubmitTransaction config_performance (Suc 0) (\<lambda>k. Refreshed None)
         (\<lambda>k i. Failed FeeTooLow) 0 False (sweeper_init config_performance)
   = ([300000, 450000, 675000], Some False,
      \<lparr>preparing = True, submitted = True, confirmed = False, attempts = 3,
       currentFee = 675000, sponsorLoaded = True\<rparr>)"
  by (simp add: prepareAndSubmitTransaction.simps sweeper_init_def config_performance_def
        refreshAccountData_def updateNetworkFees_def math_round_def Let_def)

text \<open>
  C6, as the code has it. \<^verbatim>\<open>submitWithRetries\<close> issues the initial submission and at most
  \<^verbatim>\<open>maxSubmissionAttempts\<close> fee bumps; when all of them fail it has issued exactly
  \<open>maxSubmissionAttempts + 1\<close> submissions and reports exhaustion. \<^verbatim>\<open>prepareAndSubmitTransaction\<close>
  runs at most \<^verbatim>\<open>maxSubmissionAttempts\<close> rounds (and at least one), each submitting once to
  every endpoint; once it has given up, the attempt count has reached the limit and a
  further call issues nothing.
\<close>

theorem submissions_bounded_by_attempt_limit:
  "length (fst (submitWithRetries cfg srv bid)) \<le> Suc (maxSubmissionAttempts cfg)
   \<and> ((\<forall>k. k \<le> maxSubmissionAttempts cfg \<longrightarrow> srv k \<noteq> Accepted) \<longrightarrow>
        length (fst (submitWithRetries cfg srv bid)) = Suc (maxSubmissionAttempts cfg)
        \<and> \<not> snd (submitWithRetries cfg srv bid))
   \<and> length (fst (prepareAndSubmitTransaction pcfg h rf rs k po st))
        \<le> h * max 1 (maxSubmissionAttempts pcfg - attempts st)
   \<and> (fst (snd (prepareAndSubmitTransaction pcfg h rf rs k po st)) = Some False
        \<and> sponsorLoaded (snd (snd (prepareAndSubmitTransaction pcfg h rf rs k po st))) \<longrightarrow>
        maxSubmissionAttempts pcfg
          \<le> attempts (snd (snd (prepareAndSubmitTransaction pcfg h rf rs k po st)))
        \<and> prepareAndSubmitTransaction pcfg h rf' rs' k' po'
             (snd (snd (prepareAndSubmitTransaction pcfg h rf rs k po st)))
            = ([], None, snd (snd (prepareAndSubmitTransaction pcfg h rf rs k po st))))"
proof (intro conjI impI)
  show "length (fst (submitWithRetries cfg srv bid)) \<le> Suc (maxSubmissionAttempts cfg)"
    by (rule submitWithRetries_length_le)
next
  assume "\<forall>k. k \<le> maxSubmissionAttempts cfg \<longrightarrow> srv k \<noteq> Accepted"
  from submitWithRetries_exhausted [OF this]
  show "length (fst (submitWithRetries cfg srv bid)) = Suc (maxSubmissionAttempts cfg)"
    and "\<not> snd (submitWithRetries cfg srv bid)" by simp_all
next
  show "length (fst (prepareAndSubmitTransaction pcfg h rf rs k po st))
        \<le> h * max 1 (maxSubmissionAttempts pcfg - attempts st)"
    by (rule prepareAndSubmitTransaction_length)
next
  assume a: "fst (snd (prepareAndSubmitTransaction pcfg h rf rs k po st)) = Some False
        \<and> sponsorLoaded (snd (snd (prepareAndSubmitTransaction pcfg h rf rs k po st)))"
  from prepareAndSubmitTransaction_gave_up [of pcfg h rf rs k po st] a
  have g: "submitted (snd (snd (prepareAndSubmitTransaction pcfg h rf rs k po st)))"
    and m: "maxSubmissionAttempts pcfg
          \<le> attempts (snd (snd (prepareAndSubmitTransaction pcfg h rf rs k po st)))"
    by simp_all
  show "maxSubmissionAttempts pcfg
          \<le> attempts (snd (snd (prepareAndSubmitTransaction pcfg h rf rs k po st)))"
    by (rule m)
  show "prepareAndSubmitTransaction pcfg h rf' rs' k' po'
             (snd (snd (prepareAndSubmitTransaction pcfg h rf rs k po st)))
            = ([], None, snd (snd (prepareAndSubmitTransaction pcfg h rf rs k po st)))"
    using g by (subst prepareAndSubmitTransaction.simps) simp
qed

theorem submissions_bounded_by_attempt_limit_witness:
  "length (fst (submitWithRetries config_aggressive (\<lambda>k. Failed FeeTooLow) 3500000)) = 4
   \<and> \<not> snd (submitWithRetries config_aggressive (\<lambda>k. Failed FeeTooLow) 3500000)
   \<and> fst (prepareAndSubmitTransaction config_performance (Suc 0) (\<lambda>k. Refreshed None)
             (\<lambda>k i. Failed FeeTooLow) 0 False (sweeper_init config_performance))
       = [300000, 450000, 675000]
   \<and> prepareAndSubmitTransaction config_performance (Suc 0) (\<lambda>k. Refreshed None)
         (\<lambda>k i. Failed FeeTooLow) 3 False
         \<lparr>preparing = True, submitted = True, confirmed = False, attempts = 3,
          currentFee = 675000, sponsorLoaded = True\<rparr>
       = ([], None,
          \<lparr>preparing = True, submitted = True, confirmed = False, attempts = 3,
           currentFee = 675000, sponsorLoaded = True\<rparr>)"
proof -
  have h1: "\<forall>k. k \<le> maxSubmissionAttempts config_aggressive \<longrightarrow>
              (\<lambda>k. Failed FeeTooLow) k \<noteq> Accepted"
    by simp
  have m: "maxSubmissionAttempts config_aggressive = 3" by (simp add: config_aggressive_def)
  from submissions_bounded_by_attempt_limit
         [of config_aggressive "\<lambda>k. Failed FeeTooLow" 3500000
             config_performance "Suc 0" "\<lambda>k. Refreshed None" "\<lambda>k i. Failed FeeTooLow" 0 False
             "sweeper_init config_performance"
             "\<lambda>k. Refreshed None" "\<lambda>k i. Failed FeeTooLow" 3 False]
       h1 m
  show ?thesis by (simp add: prepareAndSubmitTransaction_all_fail)
qed

text \<open>
  C6 as stated fails for \<^verbatim>\<open>submitWithRetries\<close>: with a limit of three and every submission
  failing for a retryable reason, four submissions are issued.
\<close>

theorem submitWithRetries_four_submissions:
  "length (fst (submitWithRetries config_aggressive (\<lambda>k. Failed FeeTooLow) 3500000)) = 4
   \<and> maxSubmissionAttempts config_aggressive = 3"
  by (simp add: submitWithRetries_def feeBumpLoop.simps config_aggressive_def Let_def)


section \<open>LedgerClock: the next-close estimate\<close>

lemma observed_nonempty [simp]: "observed l ts \<noteq> []"
  by (induction ts arbitrary: l) auto

lemma observed_snoc:
  "observed l (ts @ [t]) =
     (if sequence t > sequence (last (observed l ts)) then observed l ts @ [t] else observed l ts)"
  by (induction ts arbitrary: l) auto

lemma intervals_snoc:
  "xs \<noteq> [] \<Longrightarrow> intervals (xs @ [b]) = intervals xs @ [b - last xs]"
  by (induction xs rule: intervals.induct) auto

lemma recent_snoc:
  "recent 10 (ys @ [y]) =
     (let pushed = recent 10 ys @ [y] in if length pushed > 10 then tl pushed else pushed)"
proof (cases "length ys < 10")
  case True
  then show ?thesis by (simp add: recent_def Let_def)
next
  case False
  let ?n = "length ys - 10"
  from False have "drop ?n ys \<noteq> []" by simp
  then have "tl (drop ?n ys @ [y]) = tl (drop ?n ys) @ [y]" by simp
  also have "tl (drop ?n ys) = drop (Suc ?n) ys" by (simp add: drop_Suc tl_drop)
  finally have t: "tl (drop ?n ys @ [y]) = drop (Suc ?n) ys @ [y]" .
  from False have e: "Suc ?n = length ys - 9" by arith
  from False t show ?thesis unfolding e by (simp add: recent_def Let_def)
qed

lemma monitor_inv:
  "latestLedgerNum (monitor first ticks) = sequence (last (observed first ticks))
   \<and> lastLedgerCloseTime (monitor first ticks) = closed_at (last (observed first ticks))
   \<and> blockTimes (monitor first ticks)
       = recent 10 (intervals (map closed_at (observed first ticks)))
   \<and> avgBlockTimeMs (monitor first ticks)
       = (if blockTimes (monitor first ticks) = [] then 5000
          else mean (blockTimes (monitor first ticks)))"
proof (induction ticks rule: rev_induct)
  case Nil
  then show ?case by (simp add: monitor_def startBlockMonitoring_def recent_def)
next
  case (snoc t ticks)
  let ?st = "monitor first ticks"
  have step: "monitor first (ticks @ [t]) = onTick ?st t" by (simp add: monitor_def)
  note inv = snoc
  show ?case
  proof (cases "sequence t > latestLedgerNum ?st")
    case False
    with inv show ?thesis
      unfolding step by (simp add: onTick_def observed_snoc)
  next
    case True
    with inv have obs: "observed first (ticks @ [t]) = observed first ticks @ [t]"
      by (simp add: observed_snoc)
    have iv: "intervals (map closed_at (observed first ticks @ [t]))
                = intervals (map closed_at (observed first ticks))
                  @ [closed_at t - closed_at (last (observed first ticks))]"
      using intervals_snoc [of "map closed_at (observed first ticks)" "closed_at t"]
      by (simp add: last_map)
    let ?B = "recent 10 (intervals (map closed_at (observed first ticks)))"
    let ?d = "closed_at t - closed_at (last (observed first ticks))"
    let ?kept = "if length (?B @ [?d]) > 10 then tl (?B @ [?d]) else ?B @ [?d]"
    let ?K = "recent 10 (intervals (map closed_at (observed first (ticks @ [t]))))"
    have kept: "?kept = ?K"
      unfolding obs iv by (simp add: recent_snoc Let_def)
    have ne: "?K \<noteq> []"
      unfolding obs iv by (simp add: recent_def)
    from inv have f: "latestLedgerNum ?st = sequence (last (observed first ticks))"
      "lastLedgerCloseTime ?st = closed_at (last (observed first ticks))"
      "blockTimes ?st = ?B"
      by simp_all
    have "onTick ?st t =
        \<lparr>latestLedgerNum = sequence t, lastLedgerCloseTime = closed_at t,
         avgBlockTimeMs = real_of_int (sum_list ?kept) / real (length ?kept),
         blockTimes = ?kept\<rparr>"
      using True f by (simp add: onTick_def Let_def)
    then have tick: "onTick ?st t =
        \<lparr>latestLedgerNum = sequence t, lastLedgerCloseTime = closed_at t,
         avgBlockTimeMs = real_of_int (sum_list ?K) / real (length ?K),
         blockTimes = ?K\<rparr>"
      unfolding kept .
    have l: "last (observed first (ticks @ [t])) = t" unfolding obs by simp
    show ?thesis
      unfolding step tick using ne l by (simp add: mean_def)
  qed
qed

text \<open>
  C8. After any sequence of polls, the expected next close is the last observed close
  time plus the arithmetic mean of the last ten intervals between observed ledgers; the
  buffer never holds more than ten intervals; and with fewer than two observed ledgers
  (no interval yet) the average is the default of 5000 milliseconds.
\<close>

theorem estimateNextClose_moving_average:
  "expectedNextBlockTime (monitor first ticks) = estimateNextClose_spec 10 5000 first ticks
   \<and> length (blockTimes (monitor first ticks)) \<le> 10
   \<and> (length (observed first ticks) < 2 \<longrightarrow> avgBlockTimeMs (monitor first ticks) = 5000)"
proof (intro conjI impI)
  note inv = monitor_inv [of first ticks]
  show "expectedNextBlockTime (monitor first ticks) = estimateNextClose_spec 10 5000 first ticks"
    using inv by (simp add: expectedNextBlockTime_def estimateNextClose_spec_def Let_def last_map)
  show "length (blockTimes (monitor first ticks)) \<le> 10"
    using inv by (simp add: recent_def)
  assume "length (observed first ticks) < 2"
  then obtain l where "observed first ticks = [l]"
    by (cases "observed first ticks"; cases "tl (observed first ticks)") auto
  with inv show "avgBlockTimeMs (monitor first ticks) = 5000"
    by (simp add: recent_def)
qed

theorem estimateNextClose_moving_average_witness:
  "length (observed \<lparr>sequence = 100, closed_at = 1000000\<rparr>
             [\<lparr>sequence = 100, closed_at = 1000000\<rparr>]) < 2
   \<and> avgBlockTimeMs (monitor \<lparr>sequence = 100, closed_at = 1000000\<rparr>
                         [\<lparr>sequence = 100, closed_at = 1000000\<rparr>]) = 5000
   \<and> expectedNextBlockTime (monitor \<lparr>sequence = 100, closed_at = 1000000\<rparr>
                         [\<lparr>sequence = 100, closed_at = 1000000\<rparr>]) = 1005000"
proof -
  let ?l = "\<lparr>sequence = 100, closed_at = 1000000\<rparr>"
  have h: "length (observed ?l [?l]) < 2" by simp
  from estimateNextClose_moving_average [of ?l "[?l]"] h
  show ?thesis
    by (simp add: estimateNextClose_spec_def recent_def Let_def)
qed

text \<open>A run with three polls, one of them repeating a ledger: intervals \<open>5200\<close> and \<open>4600\<close>.\<close>

lemma monitor_example:
  "expectedNextBlockTime
     (monitor \<lparr>sequence = 100, closed_at = 1000000\<rparr>
        [\<lparr>sequence = 101, closed_at = 1005200\<rparr>, \<lparr>sequence = 101, closed_at = 1005200\<rparr>,
         \<lparr>sequence = 102, closed_at = 1009800\<rparr>]) = 1009800 + 4900"
  by (simp add: monitor_def startBlockMonitoring_def onTick_def expectedNextBlockTime_def Let_def)


section \<open>Flood: sequence numbers and submission order\<close>

lemma buildLoop_all_accepted:
  assumes "\<forall>j. i \<le> j \<and> j < txCount self \<longrightarrow> feeAccepted env (candidateFee self j)"
  shows "buildLoop self env s i pushed
           = (Completed, pushed @ map (buildCandidate self s) [i..<txCount self])"
  using assms
proof (induction self env s i pushed rule: buildLoop.induct)
  case (1 self env s i pushed)
  show ?case
  proof (cases "i < txCount self")
    case False
    then show ?thesis by (simp add: buildLoop.simps [of self env s i])
  next
    case True
    with "1.prems" have acc: "feeAccepted env (candidateFee self i)" by simp
    from "1.prems" have "\<forall>j. i + 1 \<le> j \<and> j < txCount self \<longrightarrow> feeAccepted env (candidateFee self j)"
      by simp
    from "1.IH" [OF True acc this] True acc show ?thesis
      by (simp add: buildLoop.simps [of self env s i] upt_conv_Cons)
  qed
qed

lemma buildLoop_refused:
  assumes "i \<le> j" and "j < txCount self" and "\<not> feeAccepted env (candidateFee self j)"
  shows "fst (buildLoop self env s i pushed) = Threw"
  using assms
proof (induction self env s i pushed rule: buildLoop.induct)
  case (1 self env s i pushed)
  from "1.prems" have lt: "i < txCount self" by simp
  show ?case
  proof (cases "feeAccepted env (candidateFee self i)")
    case False
    with lt show ?thesis by (simp add: buildLoop.simps [of self env s i])
  next
    case True
    with "1.prems" have "i \<noteq> j" by auto
    with "1.prems" have "i + 1 \<le> j" by simp
    from "1.IH" [OF lt True this "1.prems"(2,3)] lt True show ?thesis
      by (simp add: buildLoop.simps [of self env s i])
  qed
qed

lemma sortByFeeDesc_Nil [simp]: "(sortByFeeDesc xs = []) = (xs = [])"
proof -
  have "length (sortByFeeDesc xs) = length xs" by (simp add: sortByFeeDesc_def)
  then show ?thesis by (metis length_0_conv)
qed

lemma prepareTransactions_completes:
  "(fst (prepareTransactions self env) = Completed)
     = (sourceLoad env \<noteq> None \<and> (useFeeSponsor self \<longrightarrow> sponsorLoad env) \<and> 0 < txCount self
        \<and> (\<forall>i<txCount self. feeAccepted env (candidateFee self i)))"
proof (cases "sourceLoad env")
  case None
  then show ?thesis by (simp add: prepareTransactions_def)
next
  case (Some s)
  show ?thesis
  proof (cases "useFeeSponsor self \<and> \<not> sponsorLoad env")
    case True
    with Some show ?thesis by (auto simp: prepareTransactions_def)
  next
    case ok: False
    show ?thesis
    proof (cases "\<forall>i<txCount self. feeAccepted env (candidateFee self i)")
      case True
      then have "buildLoop self env s 0 []
                   = (Completed, [] @ map (buildCandidate self s) [0..<txCount self])"
        by (intro buildLoop_all_accepted) simp
      with Some ok True show ?thesis
        by (auto simp: prepareTransactions_def Let_def)
    next
      case False
      then obtain j where "j < txCount self" "\<not> feeAccepted env (candidateFee self j)" by auto
      then have "fst (buildLoop self env s 0 []) = Threw"
        by (intro buildLoop_refused [where j = j]) simp_all
      then obtain pushed where "buildLoop self env s 0 [] = (Threw, pushed)"
        by (cases "buildLoop self env s 0 []") auto
      with Some ok False show ?thesis by (auto simp: prepareTransactions_def)
    qed
  qed
qed

lemma prepareTransactions_completed:
  assumes "fst (prepareTransactions self env) = Completed" and "sourceLoad env = Some s"
  shows "snd (prepareTransactions self env)
           = self\<lparr>transactions := sortByFeeDesc (map (buildCandidate self s) [0..<txCount self])\<rparr>"
proof -
  from assms(1) have c: "(useFeeSponsor self \<longrightarrow> sponsorLoad env) \<and> 0 < txCount self
        \<and> (\<forall>i<txCount self. feeAccepted env (candidateFee self i))"
    by (simp add: prepareTransactions_completes)
  then have "buildLoop self env s 0 []
               = (Completed, [] @ map (buildCandidate self s) [0..<txCount self])"
    by (intro buildLoop_all_accepted) simp
  with assms(2) c show ?thesis
    by (auto simp: prepareTransactions_def Let_def)
qed




text \<open>
  Two runs: the sample bot with a numeric base fee, and the same bot with the base fee
  that \<^verbatim>\<open>initializeKeypairs\<close> stores, where the second candidate's fee does not fit.
\<close>

lemma prepareTransactions_example:
  "prepareTransactions sample_bot sample_env =
    (Completed, sample_bot\<lparr>transactions :=
      [\<lparr>builtOn = 42, sequence_number = 43, fee = 140000, index = 2, sponsored = True\<rparr>,
       \<lparr>builtOn = 42, sequence_number = 43, fee = 120000, index = 1, sponsored = True\<rparr>,
       \<lparr>builtOn = 42, sequence_number = 43, fee = 100000, index = 0, sponsored = True\<rparr>]\<rparr>)"
  by (simp add: prepareTransactions_def buildLoop.simps sortByFeeDesc_def buildCandidate_def
        candidateFee_def sample_bot_def sample_env_def fitsFeeField_def Let_def)





lemma staggerFrom_length [simp]: "length (staggerFrom sp i txs) = length txs"
  by (induction txs arbitrary: i) auto

lemma staggerFrom_nth:
  "k < length txs \<Longrightarrow> staggerFrom sp i txs ! k = (int (i + k) * sp, txs ! k)"
proof (induction txs arbitrary: i k)
  case Nil
  then show ?case by simp
next
  case (Cons t txs)
  then show ?case by (cases k) simp_all
qed

lemma sortByFeeDesc_sorted: "sorted_wrt (\<lambda>a b. fee b \<le> fee a) (sortByFeeDesc txs)"
proof -
  have "sorted (map (\<lambda>t. - int (fee t)) (sort_key (\<lambda>t. - int (fee t)) txs))"
    by (rule sorted_sort_key)
  then show ?thesis by (simp add: sortByFeeDesc_def sorted_map)
qed

lemma executeFlood_prepared:
  assumes "\<not> isRunning self" and "transactions self \<noteq> []"
  shows "fst (executeFlood self env) = staggerFrom (txSpacingMs self) 0 (transactions self)"
  using assms by (simp add: executeFlood_def Let_def)

text \<open>
  C10. When \<^verbatim>\<open>prepareTransactions\<close> can complete (the accounts load, there is a candidate
  to build and the SDK takes every fee) it does, and leaves the list sorted by fee,
  highest first. \<^verbatim>\<open>executeFlood\<close>, started on the prepared bot, hands candidate \<open>i\<close> of the
  list to the timer with delay \<open>i * txSpacingMs\<close>; with a spacing that is not negative, a
  candidate earlier in the list has a delay no longer and a fee no lower than a later
  one, and the first candidate has delay \<open>0\<close> and the highest fee of all.
\<close>

theorem flood_submits_in_descending_fee_order:
  "sourceLoad env \<noteq> None \<and> (useFeeSponsor self \<longrightarrow> sponsorLoad env) \<and> 0 < txCount self
   \<and> (\<forall>i<txCount self. feeAccepted env (candidateFee self i)) \<and> \<not> isRunning self \<longrightarrow>
     fst (prepareTransactions self env) = Completed
     \<and> sorted_wrt (\<lambda>a b. fee b \<le> fee a) (transactions (snd (prepareTransactions self env)))
     \<and> length (fst (executeFlood (snd (prepareTransactions self env)) env')) = txCount self
     \<and> (i < txCount self \<longrightarrow>
          fst (executeFlood (snd (prepareTransactions self env)) env') ! i
            = (int i * txSpacingMs self, transactions (snd (prepareTransactions self env)) ! i))
     \<and> (0 \<le> txSpacingMs self \<and> i \<le> j \<and> j < txCount self \<longrightarrow>
          fst (fst (executeFlood (snd (prepareTransactions self env)) env') ! i)
            \<le> fst (fst (executeFlood (snd (prepareTransactions self env)) env') ! j)
          \<and> fee (snd (fst (executeFlood (snd (prepareTransactions self env)) env') ! j))
              \<le> fee (snd (fst (executeFlood (snd (prepareTransactions self env)) env') ! i)))
     \<and> fst (hd (fst (executeFlood (snd (prepareTransactions self env)) env'))) = 0
     \<and> (\<forall>t \<in> set (transactions (snd (prepareTransactions self env))).
           fee t \<le> fee (snd (hd (fst (executeFlood (snd (prepareTransactions self env)) env')))))"
proof (intro impI)
  assume a: "sourceLoad env \<noteq> None \<and> (useFeeSponsor self \<longrightarrow> sponsorLoad env) \<and> 0 < txCount self
   \<and> (\<forall>i<txCount self. feeAccepted env (candidateFee self i)) \<and> \<not> isRunning self"
  let ?self' = "snd (prepareTransactions self env)"
  let ?txs = "transactions ?self'"
  let ?n = "txCount self"
  let ?sp = "txSpacingMs self"
  let ?sched = "fst (executeFlood ?self' env')"
  from a have c: "fst (prepareTransactions self env) = Completed"
    by (simp add: prepareTransactions_completes)
  from a obtain s where s: "sourceLoad env = Some s" by auto
  from c s have self': "?self' = self\<lparr>transactions := sortByFeeDesc (map (buildCandidate self s) [0..<?n])\<rparr>"
    by (rule prepareTransactions_completed)
  then have txs: "?txs = sortByFeeDesc (map (buildCandidate self s) [0..<?n])" by simp
  have len: "length ?txs = ?n" using txs by (simp add: sortByFeeDesc_def)
  from a have pos: "0 < ?n" by simp
  with len have ne: "?txs \<noteq> []" by auto
  from a self' have nr: "\<not> isRunning ?self'" by simp
  from self' have sp: "txSpacingMs ?self' = ?sp" by simp
  have sched: "?sched = staggerFrom ?sp 0 ?txs"
    using executeFlood_prepared [OF nr ne, of env'] sp by simp
  have srt: "sorted_wrt (\<lambda>a b. fee b \<le> fee a) ?txs"
    unfolding txs by (rule sortByFeeDesc_sorted)
  have nth: "?sched ! k = (int k * ?sp, ?txs ! k)" if "k < ?n" for k
    using that len staggerFrom_nth [of k ?txs ?sp 0] by (simp add: sched)
  have mono: "fee (?txs ! j) \<le> fee (?txs ! i)" if "i \<le> j" "j < ?n" for i j
  proof (cases "i = j")
    case True
    then show ?thesis by simp
  next
    case False
    with that have "i < j" by simp
    with srt that len show ?thesis by (simp add: sorted_wrt_iff_nth_less)
  qed
  have hd0: "hd ?sched = (0, ?txs ! 0)"
  proof -
    from pos len have "length ?sched \<noteq> 0" by (simp add: sched)
    then have "?sched \<noteq> []" by auto
    then have "hd ?sched = ?sched ! 0" by (simp add: hd_conv_nth)
    with nth [OF pos] show ?thesis by simp
  qed
  have top: "fee t \<le> fee (?txs ! 0)" if "t \<in> set ?txs" for t
  proof -
    from that obtain k where "k < length ?txs" "?txs ! k = t" by (auto simp: in_set_conv_nth)
    with mono [of 0 k] len show ?thesis by auto
  qed
  show "fst (prepareTransactions self env) = Completed
     \<and> sorted_wrt (\<lambda>a b. fee b \<le> fee a) ?txs
     \<and> length ?sched = ?n
     \<and> (i < ?n \<longrightarrow> ?sched ! i = (int i * ?sp, ?txs ! i))
     \<and> (0 \<le> ?sp \<and> i \<le> j \<and> j < ?n \<longrightarrow>
          fst (?sched ! i) \<le> fst (?sched ! j) \<and> fee (snd (?sched ! j)) \<le> fee (snd (?sched ! i)))
     \<and> fst (hd ?sched) = 0
     \<and> (\<forall>t \<in> set ?txs. fee t \<le> fee (snd (hd ?sched)))"
  proof (intro conjI impI ballI)
    show "fst (prepareTransactions self env) = Completed" by (rule c)
    show "sorted_wrt (\<lambda>a b. fee b \<le> fee a) ?txs" by (rule srt)
    show "length ?sched = ?n" using len by (simp add: sched)
    show "?sched ! i = (int i * ?sp, ?txs ! i)" if "i < ?n" using nth that .
    show "fst (hd ?sched) = 0" by (simp add: hd0)
  next
    assume b: "0 \<le> ?sp \<and> i \<le> j \<and> j < ?n"
    then have "i < ?n" "j < ?n" by simp_all
    with b nth show "fst (?sched ! i) \<le> fst (?sched ! j)"
      by (simp add: mult_right_mono)
    from b nth \<open>i < ?n\<close> mono [of i j]
    show "fee (snd (?sched ! j)) \<le> fee (snd (?sched ! i))"
      by simp
  next
    fix t assume "t \<in> set ?txs"
    then show "fee t \<le> fee (snd (hd ?sched))" by (simp add: hd0 top)
  qed
qed

text \<open>
  The sample bot: its three candidates are prepared with fees \<open>100000\<close>, \<open>120000\<close>, \<open>140000\<close>,
  sorted highest first, and submitted at \<open>0\<close>, \<open>15\<close> and \<open>30\<close> milliseconds.
\<close>

theorem flood_submits_in_descending_fee_order_witness:
  "sourceLoad sample_env \<noteq> None \<and> sponsorLoad sample_env \<and> 0 < txCount sample_bot
   \<and> feeAccepted sample_env (candidateFee sample_bot 0)
   \<and> feeAccepted sample_env (candidateFee sample_bot 1)
   \<and> feeAccepted sample_env (candidateFee sample_bot 2)
   \<and> \<not> isRunning sample_bot \<and> 0 \<le> txSpacingMs sample_bot
   \<and> fst (prepareTransactions sample_bot sample_env) = Completed
   \<and> fst (executeFlood (snd (prepareTransactions sample_bot sample_env)) sample_env) =
       [(0, \<lparr>builtOn = 42, sequence_number = 43, fee = 140000, index = 2, sponsored = True\<rparr>),
        (15, \<lparr>builtOn = 42, sequence_number = 43, fee = 120000, index = 1, sponsored = True\<rparr>),
        (30, \<lparr>builtOn = 42, sequence_number = 43, fee = 100000, index = 0, sponsored = True\<rparr>)]
   \<and> sorted_wrt (\<lambda>a b. fee b \<le> fee a)
        (transactions (snd (prepareTransactions sample_bot sample_env)))
   \<and> fee (snd (fst (executeFlood (snd (prepareTransactions sample_bot sample_env)) sample_env) ! 2))
       \<le> fee (snd (fst (executeFlood (snd (prepareTransactions sample_bot sample_env)) sample_env) ! 0))"
proof -
  have f: "feeAccepted sample_env (candidateFee sample_bot 0)"
          "feeAccepted sample_env (candidateFee sample_bot 1)"
          "feeAccepted sample_env (candidateFee sample_bot 2)"
    by (simp_all add: sample_env_def sample_bot_def candidateFee_def fitsFeeField_def)
  have n: "txCount sample_bot = 3" by (simp add: sample_bot_def)
  have all: "\<forall>i<txCount sample_bot. feeAccepted sample_env (candidateFee sample_bot i)"
  proof (intro allI impI)
    fix i assume "i < txCount sample_bot"
    with n have "i = 0 \<or> i = 1 \<or> i = 2" by auto
    with f show "feeAccepted sample_env (candidateFee sample_bot i)" by auto
  qed
  have h: "sourceLoad sample_env \<noteq> None \<and> (useFeeSponsor sample_bot \<longrightarrow> sponsorLoad sample_env)
           \<and> 0 < txCount sample_bot \<and> \<not> isRunning sample_bot"
    by (simp add: sample_env_def sample_bot_def)
  have h2: "0 \<le> txSpacingMs sample_bot \<and> (0::nat) \<le> 2 \<and> 2 < txCount sample_bot"
    by (simp add: sample_bot_def)
  have sl: "sponsorLoad sample_env" by (simp add: sample_env_def)
  note t = flood_submits_in_descending_fee_order
             [where self = sample_bot and env = sample_env and env' = sample_env
                and i = 0 and j = 2]
  from t h all have c: "fst (prepareTransactions sample_bot sample_env) = Completed" by blast
  from t h all have s: "sorted_wrt (\<lambda>a b. fee b \<le> fee a)
        (transactions (snd (prepareTransactions sample_bot sample_env)))" by blast
  from t h all h2
  have o: "fee (snd (fst (executeFlood (snd (prepareTransactions sample_bot sample_env)) sample_env) ! 2))
       \<le> fee (snd (fst (executeFlood (snd (prepareTransactions sample_bot sample_env)) sample_env) ! 0))"
    by blast
  have e: "fst (executeFlood (snd (prepareTransactions sample_bot sample_env)) sample_env) =
       [(0, \<lparr>builtOn = 42, sequence_number = 43, fee = 140000, index = 2, sponsored = True\<rparr>),
        (15, \<lparr>builtOn = 42, sequence_number = 43, fee = 120000, index = 1, sponsored = True\<rparr>),
        (30, \<lparr>builtOn = 42, sequence_number = 43, fee = 100000, index = 0, sponsored = True\<rparr>)]"
    unfolding prepareTransactions_example
    by (simp add: executeFlood_def sample_bot_def Let_def)
  from f h h2 sl c s o e show ?thesis by blast
qed

end
